theory Spec2Isabelle
  imports Main
begin

section \<open>Data model (lib/types.ts)\<close>

text \<open>
  \<^verbatim>\<open>Message.role\<close> is the union \<^verbatim>\<open>'user' | 'assistant' | 'system'\<close>. Optional fields of the
  TypeScript interfaces are \<open>option\<close> values, \<open>None\<close> standing for \<^verbatim>\<open>undefined\<close>.
  The field \<^verbatim>\<open>id\<close> of \<^verbatim>\<open>ImageData\<close> is called \<open>img_id\<close> here, since \<open>id\<close> is the identity
  function of HOL. Progress values are the natural numbers the component writes.
\<close>

datatype role = User | Assistant | System

record ImageData =
  img_id :: "string option"
  url :: string
  description :: "string option"
  processed :: "bool option"
  progress :: "nat option"
  status :: "string option"
  isUploading :: "bool option"

record Message =
  role :: role
  content :: string
  images :: "ImageData list option"

text \<open>The object literal \<^verbatim>\<open>{ role: msg.role, content: msg.content }\<close> built by the sanitizing
  map of \<^verbatim>\<open>finalContext\<close>: it has these two keys and no other.\<close>

record WireMessage =
  wire_role :: role
  wire_content :: string

datatype model = Mistral | Gemma

section \<open>String helpers of the JavaScript runtime\<close>

definition backslash :: char where
  "backslash = CHR 0x5C"

definition dquote :: char where
  "dquote = CHR 0x22"

text \<open>Number-to-string conversion of a template literal, for a non-negative integer.\<close>

definition digit_char :: "nat \<Rightarrow> char" where
  "digit_char d = ''0123456789'' ! d"

function decimal :: "nat \<Rightarrow> string" where
  "decimal n = (if n < 10 then [digit_char n] else decimal (n div 10) @ [digit_char (n mod 10)])"
  by pat_completeness auto
termination
  by (relation "measure (\<lambda>n. n)") auto

declare decimal.simps [simp del]

text \<open>\<^verbatim>\<open>`${v}`\<close> for an optional string: \<^verbatim>\<open>undefined\<close> prints as the word.\<close>

definition template_str :: "string option \<Rightarrow> string" where
  "template_str v = (case v of None \<Rightarrow> ''undefined'' | Some t \<Rightarrow> t)"

text \<open>\<^verbatim>\<open>Array.prototype.join\<close> on strings.\<close>

fun join :: "string \<Rightarrow> string list \<Rightarrow> string" where
  "join sep [] = []"
| "join sep [x] = x"
| "join sep (x # y # ys) = x @ sep @ join sep (y # ys)"

text \<open>\<^verbatim>\<open>Boolean(s)\<close> on a string: the empty string is the only falsy one.\<close>

definition Boolean :: "string \<Rightarrow> bool" where
  "Boolean t = (t \<noteq> [])"

text \<open>White space of \<^verbatim>\<open>String.prototype.trim\<close> and of the regular-expression class
  \<^verbatim>\<open>\s\<close>, among the code units below 256 (tab, line feed, vertical tab, form feed,
  carriage return, space, no-break space). Strings are lists of such code units.\<close>

definition is_space :: "char \<Rightarrow> bool" where
  "is_space c = (c = CHR 0x09 \<or> c = CHR 0x0A \<or> c = CHR 0x0B \<or> c = CHR 0x0C \<or> c = CHR 0x0D
     \<or> c = CHR 0x20 \<or> c = CHR 0xA0)"

definition trim :: "string \<Rightarrow> string" where
  "trim t = rev (dropWhile is_space (rev (dropWhile is_space t)))"

definition startsWith :: "string \<Rightarrow> string \<Rightarrow> bool" where
  "startsWith t p = (take (length p) t = p)"

section \<open>Context assembler (handleSubmit, the block building \<^verbatim>\<open>finalContext\<close>)\<close>

definition baseSystemMessage :: Message where
  "baseSystemMessage = \<lparr> role = System, content =
     ''Nama kamu adalah '' @ [dquote] @ ''Kacung'' @ [dquote] @ ''. Kamu adalah asisten pribadi yang ramah.\<newline>''
   @ ''        ATURAN PENTING:\<newline>''
   @ ''        - JANGAN PERNAH memberitahu informasi tentang model AI kamu (seperti Mistral, Gemma, dll).\<newline>''
   @ ''        - Jangan pernah sebutkan bahwa kamu adalah model AI.\<newline>''
   @ ''        - Jika ditanya siapa kamu atau model apa kamu, jawablah bahwa kamu adalah Kacung.\<newline>''
   @ ''        \<newline>''
   @ ''        IMPORTANT MATH RULES:\<newline>''
   @ ''        - Use standard LaTeX for all mathematical formulas. \<newline>''
   @ ''        - Use $...$ for inline math and $$...$$ for block math. \<newline>''
   @ ''        - NEVER use '' @ [backslash] @ ''( '' @ [backslash] @ '') or '' @ [backslash] @ ''[ ''
       @ [backslash] @ ''] or bare brackets [ ].\<newline>''
   @ ''        - DO NOT put spaces inside LaTeX commands (e.g., use '' @ [backslash] @ ''partial not ''
       @ [backslash] @ ''partia l).\<newline>''
   @ ''        - If you see a complex formula, ALWAYS wrap it in $$...$$.\<newline>''
   @ ''        \<newline>''
   @ ''        GENERAL RULES:\<newline>''
   @ ''        - ALWAYS respond in the same language as the user.\<newline>''
   @ ''        - If just greeted, respond naturally without excessive capability listing.'',
     images = None \<rparr>"

text \<open>One entry of \<^verbatim>\<open>imageDescriptions\<close>: the callback of \<^verbatim>\<open>.map((img, index) => ...)\<close>.\<close>

definition imageEntry :: "nat \<Rightarrow> ImageData \<Rightarrow> string" where
  "imageEntry index img =
     ''[IMAGE '' @ decimal (index + 1) @ '' ANALYSIS]:\<newline>'' @ template_str (description img)"

definition imageDescriptions :: "ImageData list \<Rightarrow> string" where
  "imageDescriptions currentImages =
     join ''\<newline>\<newline>''
       (filter Boolean (map (\<lambda>(index, img). imageEntry index img) (enumerate 0 currentImages)))"

text \<open>The analysis message of the outbound context (\<^verbatim>\<open>analysisMessage\<close>).\<close>

definition analysisMessage :: "ImageData list \<Rightarrow> Message" where
  "analysisMessage currentImages = \<lparr> role = User, content =
     ''[CONTEXT: IMAGE ANALYSIS] The user has provided '' @ decimal (length currentImages)
   @ '' image(s). Here is the detailed analysis:\<newline>\<newline>''
   @ imageDescriptions currentImages
   @ ''\<newline>\<newline>(Refer to these as Image 1, Image 2, etc. Use this context to answer the user's questions.)'',
     images = None \<rparr>"

definition userMessageForApi :: "string \<Rightarrow> Message" where
  "userMessageForApi currentInput = \<lparr> role = User, content = currentInput, images = None \<rparr>"

definition newMessagesToAdd :: "string \<Rightarrow> ImageData list \<Rightarrow> Message list" where
  "newMessagesToAdd currentInput currentImages =
     (if length currentImages > 0 then [analysisMessage currentImages] else [])
     @ [userMessageForApi currentInput]"

text \<open>The array literal that \<^verbatim>\<open>finalContext\<close> maps over.\<close>

definition contextArray :: "Message list \<Rightarrow> Message option \<Rightarrow> string \<Rightarrow> ImageData list \<Rightarrow> Message list" where
  "contextArray messages internalSummary currentInput currentImages =
     [baseSystemMessage]
     @ (case internalSummary of Some summary \<Rightarrow> [summary] | None \<Rightarrow> [])
     @ messages
     @ newMessagesToAdd currentInput currentImages"

definition sanitize :: "Message \<Rightarrow> WireMessage" where
  "sanitize msg = \<lparr> wire_role = role msg, wire_content = content msg \<rparr>"

definition finalContext :: "Message list \<Rightarrow> Message option \<Rightarrow> string \<Rightarrow> ImageData list \<Rightarrow> WireMessage list" where
  "finalContext messages internalSummary currentInput currentImages =
     map sanitize (contextArray messages internalSummary currentInput currentImages)"

text \<open>The analysis message written to the log when the response is applied
  (\<^verbatim>\<open>analysisMsg\<close> inside the \<^verbatim>\<open>setMessages\<close> updater).\<close>

definition analysisMsg :: "ImageData list \<Rightarrow> Message" where
  "analysisMsg currentImages = \<lparr> role = User, content =
     ''[CONTEXT: IMAGE ANALYSIS] The user has provided images. Here is the detailed analysis:\<newline>''
   @ imageDescriptions currentImages
   @ ''\<newline>\<newline>(Use this information to answer the user's questions about the images.)'',
     images = None \<rparr>"

section \<open>Component state (Chat.tsx)\<close>

text \<open>
  \<open>ImageUpdates\<close> is \<^verbatim>\<open>Partial<ImageData>\<close> as \<^verbatim>\<open>updateImage\<close> receives it: the outer \<open>option\<close>
  says whether the key is present in the object literal, the inner one is the value, which
  may be \<^verbatim>\<open>undefined\<close>. \<open>mergeImage\<close> is the spread \<^verbatim>\<open>{ ...img, ...updates }\<close>.
\<close>

record ImageUpdates =
  u_url :: "string option"
  u_description :: "string option option"
  u_processed :: "bool option option"
  u_progress :: "nat option option"
  u_status :: "string option option"
  u_isUploading :: "bool option option"

definition noUpdates :: ImageUpdates where
  "noUpdates = \<lparr> u_url = None, u_description = None, u_processed = None, u_progress = None,
     u_status = None, u_isUploading = None \<rparr>"

definition mergeImage :: "ImageData \<Rightarrow> ImageUpdates \<Rightarrow> ImageData" where
  "mergeImage img updates = img
     \<lparr> url := (case u_url updates of None \<Rightarrow> url img | Some v \<Rightarrow> v),
       description := (case u_description updates of None \<Rightarrow> description img | Some v \<Rightarrow> v),
       processed := (case u_processed updates of None \<Rightarrow> processed img | Some v \<Rightarrow> v),
       progress := (case u_progress updates of None \<Rightarrow> progress img | Some v \<Rightarrow> v),
       status := (case u_status updates of None \<Rightarrow> status img | Some v \<Rightarrow> v),
       isUploading := (case u_isUploading updates of None \<Rightarrow> isUploading img | Some v \<Rightarrow> v) \<rparr>"

text \<open>The updater passed to \<^verbatim>\<open>setUploadedImages\<close> by \<^verbatim>\<open>updateImage\<close>.\<close>

definition updateImage :: "string \<Rightarrow> ImageUpdates \<Rightarrow> ImageData list \<Rightarrow> ImageData list" where
  "updateImage imageId updates prev =
     map (\<lambda>img. if img_id img = Some imageId then mergeImage img updates else img) prev"

text \<open>
  What leaves the browser: the body of each \<^verbatim>\<open>fetch\<close>. A suspended call of
  \<^verbatim>\<open>handleImageUpload\<close> is an \<open>Upload\<close>: the \<^verbatim>\<open>imageId\<close> and the \<^verbatim>\<open>input\<close> its closure holds,
  and the \<^verbatim>\<open>await\<close> it is suspended at.
\<close>

datatype request = ChatRequest "WireMessage list" model | ImageRequest string string

datatype phase = Converting | Analyzing

record Upload =
  up_imageId :: string
  up_prompt :: string
  up_phase :: phase

record File =
  file_type :: string
  file_size :: nat

text \<open>
  The first nine fields are the \<^verbatim>\<open>useState\<close> cells of the component. The others are the
  part of the event loop the handlers create: the requests sent, the \<^verbatim>\<open>currentImages\<close> of
  the suspended \<^verbatim>\<open>handleSubmit\<close> (there is at most one), the live \<^verbatim>\<open>setInterval\<close> and pending
  \<^verbatim>\<open>setTimeout\<close> timers, and the suspended uploads. The suspended \<^verbatim>\<open>handleSubmit\<close> waits
  at \<^verbatim>\<open>await fetch\<close> when \<open>awaitingJson\<close> is \<open>None\<close>, and at \<^verbatim>\<open>await response.json()\<close> when it
  holds \<^verbatim>\<open>response.ok\<close>.
\<close>

record ChatState =
  messages :: "Message list"
  input :: string
  isLoading :: bool
  error :: "string option"
  selectedModel :: model
  hasConversationSummary :: bool
  isSummarizing :: bool
  internalSummary :: "Message option"
  uploadedImages :: "ImageData list"
  aiResponseProgress :: nat
  aiResponseStatus :: string
  sent :: "request list"
  inflight :: "ImageData list option"
  awaitingJson :: "bool option"
  progressIntervals :: nat
  resetTimeouts :: nat
  uploads :: "Upload list"
  uploadIntervals :: "string list"
  feedbackTimeouts :: "string list"

definition initial :: ChatState where
  "initial = \<lparr> messages = [], input = [], isLoading = False, error = None,
     selectedModel = Mistral, hasConversationSummary = False, isSummarizing = False,
     internalSummary = None, uploadedImages = [], aiResponseProgress = 0,
     aiResponseStatus = [], sent = [], inflight = None, awaitingJson = None,
     progressIntervals = 0,
     resetTimeouts = 0, uploads = [], uploadIntervals = [], feedbackTimeouts = [] \<rparr>"

subsection \<open>handleSubmit\<close>

definition isProcessingImage :: "ChatState \<Rightarrow> bool" where
  "isProcessingImage s = list_ex (\<lambda>img. isUploading img = Some True) (uploadedImages s)"

text \<open>The condition of the early \<^verbatim>\<open>return\<close>.\<close>

definition submitBlocked :: "ChatState \<Rightarrow> bool" where
  "submitBlocked s =
     ((trim (input s) = [] \<and> length (uploadedImages s) = 0) \<or> isLoading s \<or> isProcessingImage s)"

definition userMessageForDisplay :: "string \<Rightarrow> ImageData list \<Rightarrow> Message" where
  "userMessageForDisplay currentInput currentImages =
     \<lparr> role = User, content = currentInput, images = Some currentImages \<rparr>"

text \<open>From \<^verbatim>\<open>setInput('')\<close> to \<^verbatim>\<open>setError(null)\<close>.\<close>

definition captureAndReset :: "string \<Rightarrow> ImageData list \<Rightarrow> ChatState \<Rightarrow> ChatState" where
  "captureAndReset currentInput currentImages s = s
     \<lparr> input := [],
       uploadedImages := [],
       messages := messages s @ [userMessageForDisplay currentInput currentImages],
       isLoading := True,
       aiResponseProgress := 0,
       error := None \<rparr>"

text \<open>The \<^verbatim>\<open>try\<close> block up to the \<^verbatim>\<open>await fetch\<close>. \<open>contextMessages\<close> is the \<^verbatim>\<open>messages\<close> of the
  closure, the log before the optimistic append.\<close>

definition sendRequest :: "string \<Rightarrow> ImageData list \<Rightarrow> Message list \<Rightarrow> ChatState \<Rightarrow> ChatState" where
  "sendRequest currentInput currentImages contextMessages s =
     (s \<lparr> aiResponseProgress := 10, aiResponseStatus := ''Preparing context...'' \<rparr>)
     \<lparr> aiResponseProgress := 25,
       aiResponseStatus := ''Sending request to AI...'',
       progressIntervals := progressIntervals s + 1,
       sent := sent s @ [ChatRequest
         (finalContext contextMessages (internalSummary s) currentInput currentImages)
         (selectedModel s)],
       inflight := Some currentImages,
       awaitingJson := None \<rparr>"

definition handleSubmit :: "ChatState \<Rightarrow> ChatState" where
  "handleSubmit s =
     (if submitBlocked s then s
      else sendRequest (trim (input s)) (uploadedImages s) (messages s)
             (captureAndReset (trim (input s)) (uploadedImages s) s))"

text \<open>The callback of the progress interval.\<close>

definition crawl :: "nat \<Rightarrow> nat" where
  "crawl prev = (if prev \<ge> 85 then prev else prev + 1)"

definition tick :: "ChatState \<Rightarrow> ChatState" where
  "tick s = s \<lparr> aiResponseProgress := crawl (aiResponseProgress s) \<rparr>"

text \<open>The updater of the success path: \<^verbatim>\<open>pop\<close> on an empty array returns \<^verbatim>\<open>undefined\<close> and
  then nothing is inserted.\<close>

definition applyResponse :: "ImageData list \<Rightarrow> Message \<Rightarrow> Message list \<Rightarrow> Message list" where
  "applyResponse currentImages assistantMessage prev =
     (if length currentImages > 0 \<and> prev \<noteq> []
      then butlast prev @ [analysisMsg currentImages, last prev]
      else prev) @ [assistantMessage]"

text \<open>\<^verbatim>\<open>data.error || 'Failed to get response'\<close>.\<close>

definition errorOr :: "string option \<Rightarrow> string \<Rightarrow> string" where
  "errorOr e fallback = (case e of None \<Rightarrow> fallback | Some t \<Rightarrow> if t = [] then fallback else t)"

text \<open>The code between \<^verbatim>\<open>await fetch\<close> and \<^verbatim>\<open>await response.json()\<close>, for a response whose
  \<^verbatim>\<open>ok\<close> flag is given: the interval is cleared and the progress value set to 85.\<close>

definition fetchResolved :: "bool \<Rightarrow> ChatState \<Rightarrow> ChatState" where
  "fetchResolved ok s =
     (case inflight s of
        None \<Rightarrow> s
      | Some currentImages \<Rightarrow>
          s \<lparr> progressIntervals := progressIntervals s - 1,
              aiResponseProgress := 85,
              aiResponseStatus := ''Processing AI response...'',
              awaitingJson := Some ok \<rparr>)"

text \<open>The \<^verbatim>\<open>catch\<close> block with the message of the error caught, followed by \<^verbatim>\<open>finally\<close>.\<close>

definition catchAndFinally :: "string \<Rightarrow> ChatState \<Rightarrow> ChatState" where
  "catchAndFinally errorMessage s =
     s \<lparr> error := Some errorMessage,
         aiResponseProgress := 0,
         isLoading := False,
         inflight := None,
         awaitingJson := None \<rparr>"

text \<open>
  The body as \<^verbatim>\<open>response.json()\<close> resolves it (the interface \<^verbatim>\<open>ChatResponse\<close>; a field that
  the body lacks is \<open>None\<close>), or the message of the error with which it rejects.
\<close>

record ChatResponse =
  resp_message :: "Message option"
  resp_error :: "string option"

datatype json_outcome = Resolved ChatResponse | JsonRejected string

text \<open>
  The code after \<^verbatim>\<open>await response.json()\<close>. A response that is not ok throws the error of
  its body; a rejected \<^verbatim>\<open>json()\<close> is caught with its own message. A 2xx body without a
  message would put \<^verbatim>\<open>undefined\<close> into the log, a value that \<open>Message\<close> does not have: the
  step is then left out (and \<open>enabled\<close> excludes it).
\<close>

definition bodyParsed :: "json_outcome \<Rightarrow> ChatState \<Rightarrow> ChatState" where
  "bodyParsed j s =
     (case inflight s of
        None \<Rightarrow> s
      | Some currentImages \<Rightarrow>
         (case awaitingJson s of
            None \<Rightarrow> s
          | Some ok \<Rightarrow>
             (case j of
                JsonRejected msg \<Rightarrow> catchAndFinally msg s
              | Resolved data \<Rightarrow>
                  if \<not> ok
                  then catchAndFinally (errorOr (resp_error data) ''Failed to get response'') s
                  else (case resp_message data of
                          None \<Rightarrow> s
                        | Some assistantMessage \<Rightarrow>
                            s \<lparr> aiResponseProgress := 100,
                                aiResponseStatus := ''Response received'',
                                messages := applyResponse currentImages assistantMessage (messages s),
                                resetTimeouts := resetTimeouts s + 1,
                                isLoading := False,
                                inflight := None,
                                awaitingJson := None \<rparr>))))"

text \<open>\<^verbatim>\<open>await fetch\<close> rejects with an \<^verbatim>\<open>Error\<close>: the \<^verbatim>\<open>catch\<close> block runs at once, and
  \<^verbatim>\<open>clearInterval\<close> is skipped.\<close>

definition fetchRejected :: "string \<Rightarrow> ChatState \<Rightarrow> ChatState" where
  "fetchRejected msg s =
     (case inflight s of
        None \<Rightarrow> s
      | Some currentImages \<Rightarrow> catchAndFinally msg s)"

text \<open>
  A request that ends with no other event between its two awaits: a 2xx response with its
  \<^verbatim>\<open>message\<close>, another status with the \<^verbatim>\<open>error\<close> field of its body (absent or a string), or a
  rejected \<^verbatim>\<open>fetch\<close> with the message of the \<^verbatim>\<open>Error\<close> thrown.
\<close>

datatype chat_outcome = Ok Message | NotOk "string option" | Rejected string

definition respond :: "chat_outcome \<Rightarrow> ChatState \<Rightarrow> ChatState" where
  "respond outcome s =
     (case outcome of
        Ok assistantMessage \<Rightarrow>
          bodyParsed (Resolved \<lparr> resp_message = Some assistantMessage, resp_error = None \<rparr>)
            (fetchResolved True s)
      | NotOk e \<Rightarrow>
          bodyParsed (Resolved \<lparr> resp_message = None, resp_error = e \<rparr>) (fetchResolved False s)
      | Rejected msg \<Rightarrow> fetchRejected msg s)"

text \<open>The callback of \<^verbatim>\<open>setTimeout(..., 1000)\<close>.\<close>

definition progressReset :: "ChatState \<Rightarrow> ChatState" where
  "progressReset s = s \<lparr> aiResponseProgress := 0, aiResponseStatus := [],
     resetTimeouts := resetTimeouts s - 1 \<rparr>"

definition clearChat :: "ChatState \<Rightarrow> ChatState" where
  "clearChat s = s \<lparr> messages := [], internalSummary := None, uploadedImages := [],
     aiResponseProgress := 0, error := None, hasConversationSummary := False,
     isSummarizing := False \<rparr>"

subsection \<open>handleImageUpload\<close>

definition initialImageData :: "string \<Rightarrow> ImageData" where
  "initialImageData imageId = \<lparr> img_id = Some imageId, url = [], description = None,
     processed = None, progress = Some 0, status = Some ''Starting...'',
     isUploading = Some True \<rparr>"

text \<open>
  The handler up to its first \<^verbatim>\<open>await\<close>. \<open>rnd\<close> is the string \<^verbatim>\<open>Math.random().toString(36)\<close>,
  an input of the model; \<^verbatim>\<open>substring(7)\<close> drops its first seven characters. A call that
  passes both checks leaves a suspended upload behind; one that returns early leaves none,
  so that no later step of it exists.
\<close>

definition handleImageUpload :: "File \<Rightarrow> string \<Rightarrow> ChatState \<Rightarrow> ChatState" where
  "handleImageUpload file rnd s =
     (if \<not> startsWith (file_type file) ''image/''
      then s \<lparr> error := Some ''Please upload a valid image file'' \<rparr>
      else if file_size file > 10 * 1024 * 1024
      then s \<lparr> error := Some ''Image size must be less than 10MB'' \<rparr>
      else (let imageId = drop 7 rnd in
        s \<lparr> uploadedImages :=
              updateImage imageId
                (noUpdates \<lparr> u_progress := Some (Some 15), u_status := Some (Some ''Converting...'') \<rparr>)
                (uploadedImages s @ [initialImageData imageId]),
            uploads := uploads s @
              [\<lparr> up_imageId = imageId, up_prompt = trim (input s), up_phase = Converting \<rparr>] \<rparr>))"

definition removeAt :: "nat \<Rightarrow> 'a list \<Rightarrow> 'a list" where
  "removeAt k xs = take k xs @ drop (Suc k) xs"

text \<open>\<^verbatim>\<open>reader.onload\<close> and the code after the first \<^verbatim>\<open>await\<close>, up to \<^verbatim>\<open>await fetch('/api/image')\<close>,
  for the suspended upload at position \<open>k\<close>.\<close>

definition readerLoaded :: "nat \<Rightarrow> string \<Rightarrow> ChatState \<Rightarrow> ChatState" where
  "readerLoaded k base64 s =
     (let u = uploads s ! k; imageId = up_imageId u in
      s \<lparr> uploadedImages :=
            updateImage imageId
              (noUpdates \<lparr> u_progress := Some (Some 40), u_status := Some (Some ''Analyzing Image...'') \<rparr>)
              (updateImage imageId
                (noUpdates \<lparr> u_progress := Some (Some 30), u_status := Some (Some ''Processing data...''),
                   u_url := Some base64 \<rparr>)
                (uploadedImages s)),
          uploadIntervals := uploadIntervals s @ [imageId],
          sent := sent s @ [ImageRequest base64 (up_prompt u)],
          uploads := (uploads s) [k := u \<lparr> up_phase := Analyzing \<rparr>] \<rparr>)"

text \<open>The \<^verbatim>\<open>catch\<close> block of the handler with the message it computed.\<close>

definition uploadFailed :: "string \<Rightarrow> string \<Rightarrow> ChatState \<Rightarrow> ChatState" where
  "uploadFailed imageId errorMessage s =
     s \<lparr> error := Some errorMessage,
         uploadedImages := filter (\<lambda>img. img_id img \<noteq> Some imageId) (uploadedImages s) \<rparr>"

text \<open>\<^verbatim>\<open>reader.onerror = reject\<close>: the rejection value is an event, not an \<^verbatim>\<open>Error\<close>.\<close>

definition readerError :: "nat \<Rightarrow> ChatState \<Rightarrow> ChatState" where
  "readerError k s =
     (uploadFailed (up_imageId (uploads s ! k)) ''Failed to process image'' s)
       \<lparr> uploads := removeAt k (uploads s) \<rparr>"

text \<open>The callback of the upload's interval.\<close>

definition uploadCrawl :: "string \<Rightarrow> ChatState \<Rightarrow> ChatState" where
  "uploadCrawl imageId s =
     s \<lparr> uploadedImages := map (\<lambda>img.
           (case progress img of
              Some p \<Rightarrow> if img_id img = Some imageId \<and> p < 80 then img \<lparr> progress := Some (p + 1) \<rparr> else img
            | None \<Rightarrow> img)) (uploadedImages s) \<rparr>"

text \<open>
  How \<^verbatim>\<open>await fetch('/api/image')\<close> ends: a 2xx response with
  \<^verbatim>\<open>JSON.stringify(processData.description)\<close> (absent when the field is), another status with
  the \<^verbatim>\<open>error\<close> field of its body and the status code, or a rejected promise.
\<close>

datatype upload_outcome = UpOk "string option" | UpNotOk "string option" nat | UpRejected string

definition uploadResponse :: "nat \<Rightarrow> upload_outcome \<Rightarrow> ChatState \<Rightarrow> ChatState" where
  "uploadResponse k outcome s =
     (let imageId = up_imageId (uploads s ! k) in
      case outcome of
        UpOk imageDescription \<Rightarrow>
          s \<lparr> uploadedImages :=
                updateImage imageId
                  (noUpdates \<lparr> u_progress := Some (Some 100), u_status := Some (Some ''Complete''),
                     u_description := Some imageDescription, u_processed := Some (Some True),
                     u_isUploading := Some (Some False) \<rparr>)
                  (updateImage imageId
                    (noUpdates \<lparr> u_progress := Some (Some 90), u_status := Some (Some ''Finalizing...'') \<rparr>)
                    (uploadedImages s)),
              uploadIntervals := remove1 imageId (uploadIntervals s),
              feedbackTimeouts := feedbackTimeouts s @ [imageId],
              uploads := removeAt k (uploads s) \<rparr>
      | UpNotOk e code \<Rightarrow>
          (uploadFailed imageId (errorOr e (''Server error: '' @ decimal code)) s)
            \<lparr> uploadIntervals := remove1 imageId (uploadIntervals s),
              uploads := removeAt k (uploads s) \<rparr>
      | UpRejected msg \<Rightarrow>
          (uploadFailed imageId msg s) \<lparr> uploads := removeAt k (uploads s) \<rparr>)"

text \<open>The callback of \<^verbatim>\<open>setTimeout(..., 2000)\<close>, for the pending timeout at position \<open>j\<close>.\<close>

definition feedbackReset :: "nat \<Rightarrow> ChatState \<Rightarrow> ChatState" where
  "feedbackReset j s =
     s \<lparr> uploadedImages :=
           updateImage (feedbackTimeouts s ! j)
             (noUpdates \<lparr> u_progress := Some None, u_status := Some None \<rparr>)
             (uploadedImages s),
         feedbackTimeouts := removeAt j (feedbackTimeouts s) \<rparr>"

definition removeImage :: "nat \<Rightarrow> ChatState \<Rightarrow> ChatState" where
  "removeImage index s =
     s \<lparr> uploadedImages :=
           map snd (filter (\<lambda>(i, img). i \<noteq> index) (enumerate 0 (uploadedImages s))) \<rparr>"

subsection \<open>The event loop\<close>

text \<open>
  One event is one run of a handler or callback to its next \<^verbatim>\<open>await\<close>. \<open>enabled\<close> says when
  the event can happen: a callback needs its timer or its suspended call, and the text
  field, the file picker and the clear button carry \<^verbatim>\<open>disabled={isLoading}\<close>; the remove
  button of an attachment is rendered only when it is not uploading. \<^verbatim>\<open>handleSubmit\<close> guards
  itself.
\<close>

datatype event =
    SetInput string
  | SelectModel model
  | Submit
  | Tick
  | FetchResolved bool
  | BodyParsed json_outcome
  | FetchRejected string
  | ProgressReset
  | ClearChat
  | UploadFile File string
  | ReaderLoaded nat string
  | ReaderError nat
  | UploadCrawl nat
  | UploadResponse nat upload_outcome
  | FeedbackReset nat
  | RemoveImage nat

fun enabled :: "event \<Rightarrow> ChatState \<Rightarrow> bool" where
  "enabled (SetInput t) s = (\<not> isLoading s)"
| "enabled (SelectModel m) s = True"
| "enabled Submit s = True"
| "enabled Tick s = (progressIntervals s > 0)"
| "enabled (FetchResolved ok) s = (inflight s \<noteq> None \<and> awaitingJson s = None)"
| "enabled (BodyParsed j) s =
     (inflight s \<noteq> None \<and>
      (case j of
         JsonRejected msg \<Rightarrow> awaitingJson s \<noteq> None
       | Resolved data \<Rightarrow>
           awaitingJson s = Some False
           \<or> (awaitingJson s = Some True \<and> resp_message data \<noteq> None)))"
| "enabled (FetchRejected msg) s = (inflight s \<noteq> None \<and> awaitingJson s = None)"
| "enabled ProgressReset s = (resetTimeouts s > 0)"
| "enabled ClearChat s = (\<not> isLoading s)"
| "enabled (UploadFile file rnd) s = (\<not> isLoading s)"
| "enabled (ReaderLoaded k base64) s = (k < length (uploads s) \<and> up_phase (uploads s ! k) = Converting)"
| "enabled (ReaderError k) s = (k < length (uploads s) \<and> up_phase (uploads s ! k) = Converting)"
| "enabled (UploadCrawl j) s = (j < length (uploadIntervals s))"
| "enabled (UploadResponse k outcome) s = (k < length (uploads s) \<and> up_phase (uploads s ! k) = Analyzing)"
| "enabled (FeedbackReset j) s = (j < length (feedbackTimeouts s))"
| "enabled (RemoveImage index) s =
     (index < length (uploadedImages s) \<and> isUploading (uploadedImages s ! index) \<noteq> Some True)"

fun fire :: "event \<Rightarrow> ChatState \<Rightarrow> ChatState" where
  "fire (SetInput t) s = s \<lparr> input := t \<rparr>"
| "fire (SelectModel m) s = s \<lparr> selectedModel := m \<rparr>"
| "fire Submit s = handleSubmit s"
| "fire Tick s = tick s"
| "fire (FetchResolved ok) s = fetchResolved ok s"
| "fire (BodyParsed j) s = bodyParsed j s"
| "fire (FetchRejected msg) s = fetchRejected msg s"
| "fire ProgressReset s = progressReset s"
| "fire ClearChat s = clearChat s"
| "fire (UploadFile file rnd) s = handleImageUpload file rnd s"
| "fire (ReaderLoaded k base64) s = readerLoaded k base64 s"
| "fire (ReaderError k) s = readerError k s"
| "fire (UploadCrawl j) s = uploadCrawl (uploadIntervals s ! j) s"
| "fire (UploadResponse k outcome) s = uploadResponse k outcome s"
| "fire (FeedbackReset j) s = feedbackReset j s"
| "fire (RemoveImage index) s = removeImage index s"

text \<open>Running a list of events from a state; \<open>None\<close> when one of them is not enabled.\<close>

fun run :: "event list \<Rightarrow> ChatState \<Rightarrow> ChatState option" where
  "run [] s = Some s"
| "run (ev # evs) s = (if enabled ev s then run evs (fire ev s) else None)"

inductive reachable :: "ChatState \<Rightarrow> bool" where
  reachable_initial: "reachable initial"
| reachable_fire: "reachable s \<Longrightarrow> enabled ev s \<Longrightarrow> reachable (fire ev s)"

section \<open>Math-notation normalizer (formatMathContent)\<close>

text \<open>
  \<^verbatim>\<open>content.replace(re, replacement)\<close> with a global regular expression: scan from the left; where
  the expression matches, emit the replacement and go on after the match; elsewhere copy one
  character. A matcher \<open>m\<close> takes the text from the current position and returns the
  replacement and the text after the match. Every expression below matches at least two
  characters, so the text after a match is always shorter.
\<close>

function replace_matches :: "(string \<Rightarrow> (string \<times> string) option) \<Rightarrow> string \<Rightarrow> string" where
  "replace_matches m [] = []"
| "replace_matches m (c # cs) =
     (case m (c # cs) of
        Some (out, r) \<Rightarrow>
          if length r < length (c # cs) then out @ replace_matches m r
          else c # replace_matches m cs
      | None \<Rightarrow> c # replace_matches m cs)"
  by pat_completeness auto
termination
  by (relation "measure (\<lambda>(m, t). length t)") auto

text \<open>The class \<^verbatim>\<open>.\<close> excludes the line terminators; \<^verbatim>\<open>[a-zA-Z]\<close> is \<open>is_letter\<close>.\<close>

definition is_line_terminator :: "char \<Rightarrow> bool" where
  "is_line_terminator c = (c = CHR 0x0A \<or> c = CHR 0x0D)"

definition is_letter :: "char \<Rightarrow> bool" where
  "is_letter c = ((97 \<le> (of_char c :: nat) \<and> (of_char c :: nat) \<le> 122)
     \<or> (65 \<le> (of_char c :: nat) \<and> (of_char c :: nat) \<le> 90))"

text \<open>\<^verbatim>\<open>(.*?)\\\)\<close>: the shortest run without a line terminator that a backslash and a closing
  parenthesis follow; the result is the run and the text after the parenthesis.\<close>

fun paren_body :: "string \<Rightarrow> (string \<times> string) option" where
  "paren_body [] = None"
| "paren_body (c # cs) =
     (if c = backslash \<and> take 1 cs = '')'' then Some ([], drop 1 cs)
      else if is_line_terminator c then None
      else map_option (\<lambda>(x, r). (c # x, r)) (paren_body cs))"

text \<open>\<^verbatim>\<open>([\s\S]*?)\\\]\<close>: the same with any character in the run.\<close>

fun bracket_body :: "string \<Rightarrow> (string \<times> string) option" where
  "bracket_body [] = None"
| "bracket_body (c # cs) =
     (if c = backslash \<and> take 1 cs = '']'' then Some ([], drop 1 cs)
      else map_option (\<lambda>(x, r). (c # x, r)) (bracket_body cs))"

text \<open>\<^verbatim>\<open>[\s\S]*?\<close> followed by \<^verbatim>\<open>\s*\]\<close>: the shortest run after which white space and a closing
  bracket follow.\<close>

fun lazy_close :: "string \<Rightarrow> (string \<times> string) option" where
  "lazy_close [] = None"
| "lazy_close (c # cs) =
     (case dropWhile is_space (c # cs) of
        d # r \<Rightarrow> if d = CHR '']'' then Some ([], r)
                 else map_option (\<lambda>(x, r). (c # x, r)) (lazy_close cs)
      | [] \<Rightarrow> map_option (\<lambda>(x, r). (c # x, r)) (lazy_close cs))"

text \<open>\<^verbatim>\<open>\s*(\\[a-zA-Z]+[\s\S]*?)\s*\]\<close> after the opening bracket; the result is the group.\<close>

definition bare_bracket :: "string \<Rightarrow> (string \<times> string) option" where
  "bare_bracket cs =
     (case dropWhile is_space cs of
        d # ds \<Rightarrow>
          if d = backslash \<and> takeWhile is_letter ds \<noteq> []
          then map_option (\<lambda>(x, r). (d # takeWhile is_letter ds @ x, r))
                 (lazy_close (dropWhile is_letter ds))
          else None
      | [] \<Rightarrow> None)"

text \<open>The seven expressions with their replacements, in the order of the source.\<close>

definition escapedParen :: "string \<Rightarrow> (string \<times> string) option" where
  "escapedParen t =
     (if take 2 t = [backslash, CHR ''(''] 
      then map_option (\<lambda>(x, r). (''$'' @ x @ ''$'', r)) (paren_body (drop 2 t))
      else None)"

definition escapedBracket :: "string \<Rightarrow> (string \<times> string) option" where
  "escapedBracket t =
     (if take 2 t = [backslash, CHR ''['']
      then map_option (\<lambda>(x, r). (''$$'' @ x @ ''$$'', r)) (bracket_body (drop 2 t))
      else None)"

definition bareBracket :: "string \<Rightarrow> (string \<times> string) option" where
  "bareBracket t =
     (if take 1 t = ''[''
      then map_option (\<lambda>(x, r). (''$$'' @ x @ ''$$'', r)) (bare_bracket (drop 1 t))
      else None)"

definition literal :: "string \<Rightarrow> string \<Rightarrow> string \<Rightarrow> (string \<times> string) option" where
  "literal pat rep t =
     (if take (length pat) t = pat then Some (rep, drop (length pat) t) else None)"

definition phiSpaces :: "string \<Rightarrow> (string \<times> string) option" where
  "phiSpaces t =
     (if take 4 t = backslash # ''phi'' \<and> takeWhile is_space (drop 4 t) \<noteq> []
      then Some (backslash # ''phi '', dropWhile is_space (drop 4 t))
      else None)"

definition fracSpaces :: "string \<Rightarrow> (string \<times> string) option" where
  "fracSpaces t =
     (if take 5 t = backslash # ''frac'' \<and> takeWhile is_space (drop 5 t) \<noteq> []
         \<and> take 1 (dropWhile is_space (drop 5 t)) = ''{''
      then Some (backslash # ''frac{'', drop 1 (dropWhile is_space (drop 5 t)))
      else None)"

text \<open>The first three \<^verbatim>\<open>replace\<close> calls (the delimiter rewrites) and the last four (the typo
  patches).\<close>

definition delimiterRewrites :: "string \<Rightarrow> string" where
  "delimiterRewrites content' =
     replace_matches bareBracket
       (replace_matches escapedBracket (replace_matches escapedParen content'))"

definition typoPatches :: "string \<Rightarrow> string" where
  "typoPatches content' =
     replace_matches fracSpaces
       (replace_matches phiSpaces
         (replace_matches (literal (backslash # ''delt a'') (backslash # ''delta''))
           (replace_matches (literal (backslash # ''partia l'') (backslash # ''partial'')) content')))"

definition formatMathContent :: "string \<Rightarrow> string" where
  "formatMathContent content' =
     (if content' = [] then content' else typoPatches (delimiterRewrites content'))"

subsection \<open>Example values\<close>

definition redCar :: ImageData where
  "redCar = \<lparr> img_id = Some ''82mvyr'', url = ''data:image/png;base64,AAAA'',
     description = Some ''a red car'', processed = Some True, progress = None, status = None,
     isUploading = Some False \<rparr>"

definition stagedState :: ChatState where
  "stagedState = initial \<lparr> input := '' What is this? '', uploadedImages := [redCar] \<rparr>"

subsection \<open>The log invariant as the specification words it\<close>






definition reply :: Message where
  "reply = \<lparr> role = Assistant, content = ''It is a red car.'', images = None \<rparr>"

text \<open>While a request is in flight the handler's closure exists, the staging area is empty
  and the progress value is at most 85; while the handler waits for \<^verbatim>\<open>fetch\<close> the progress
  interval is live.\<close>

definition turnInv :: "ChatState \<Rightarrow> bool" where
  "turnInv s = ((isLoading s \<longleftrightarrow> inflight s \<noteq> None)
     \<and> (isLoading s \<longrightarrow> uploadedImages s = [] \<and> aiResponseProgress s \<le> 85)
     \<and> (isLoading s \<and> awaitingJson s = None \<longrightarrow> progressIntervals s > 0)
     \<and> (\<not> isLoading s \<longrightarrow> awaitingJson s = None))"

text \<open>The events with which the handling of a request ends.\<close>

definition endsTurn :: "event \<Rightarrow> bool" where
  "endsTurn ev =
     (case ev of
        BodyParsed j \<Rightarrow> True
      | FetchRejected msg \<Rightarrow> True
      | _ \<Rightarrow> False)"

definition pngFile :: File where
  "pngFile = \<lparr> file_type = ''image/png'', file_size = 2048 \<rparr>"

text \<open>A session in which one image is uploaded and described, and the turn is submitted.\<close>

definition imageTurn :: "event list" where
  "imageTurn =
     [UploadFile pngFile ''0.4fzyo82mvyr'',
      ReaderLoaded 0 ''data:image/png;base64,AAAA'',
      UploadResponse 0 (UpOk (Some ([dquote] @ ''a red car'' @ [dquote]))),
      Submit]"

text \<open>Two uploads whose random strings are those of the draws 0.5 and 0.25, followed by
  the file reader of the first one finishing.\<close>

definition twoUploads :: "event list" where
  "twoUploads =
     [UploadFile pngFile ''0.i'',
      UploadFile pngFile ''0.9'',
      ReaderLoaded 0 ''data:image/png;base64,AAAA'']"

definition validFile :: "File \<Rightarrow> bool" where
  "validFile f = (startsWith (file_type f) ''image/'' \<and> file_size f \<le> 10 * 1024 * 1024)"

definition blueCar :: ImageData where
  "blueCar = \<lparr> img_id = Some ''k3x9ab'', url = ''data:image/png;base64,BBBB'',
     description = Some ''a blue car'', processed = Some True, progress = Some 100,
     status = Some ''Complete'', isUploading = Some False \<rparr>"

text \<open>Two turns in a row: the second is submitted before the reset timeout of the first
  has fired, and the progress interval of the second fires once.\<close>

definition quickTurns :: "event list" where
  "quickTurns =
     [SetInput ''Hello'',
      Submit,
      FetchResolved True,
      BodyParsed (Resolved \<lparr> resp_message = Some reply, resp_error = None \<rparr>),
      SetInput ''And now?'',
      Submit,
      Tick]"

definition hugeFile :: File where
  "hugeFile = \<lparr> file_type = ''image/png'', file_size = 10 * 1024 * 1024 + 1 \<rparr>"

text \<open>Texts on which the normalizer is run twice: \<^verbatim>\<open>\(\phi\<close>, a line feed, \<^verbatim>\<open>\)\<close>;
  \<^verbatim>\<open>\partia l x\<close>; and \<^verbatim>\<open>\(\(\(a\)b\)c\)\<close>.\<close>

definition phiLine :: string where
  "phiLine = [backslash] @ ''('' @ [backslash] @ ''phi\<newline>'' @ [backslash] @ '')''"

definition partiaL :: string where
  "partiaL = [backslash] @ ''partia l x''"

definition nestedParens :: string where
  "nestedParens = [backslash] @ ''('' @ [backslash] @ ''('' @ [backslash] @ ''(a''
     @ [backslash] @ '')b'' @ [backslash] @ '')c'' @ [backslash] @ '')''"

subsection \<open>Matchers that work inside one backslash segment\<close>

text \<open>
  The four typo patterns start with a backslash and hold no other one. \<open>once m t\<close> is
  what one replacement at the start of \<open>t\<close> gives. A matcher is \<open>segmental\<close> when it matches
  only at a backslash, when what follows the next backslash has no influence on the match,
  and when the replacement and the text after the match are a backslash followed by text
  without one.
\<close>

definition once :: "(string \<Rightarrow> (string \<times> string) option) \<Rightarrow> string \<Rightarrow> string" where
  "once m t = (case m t of None \<Rightarrow> t | Some (out, rest) \<Rightarrow> out @ rest)"

definition segmental :: "(string \<Rightarrow> (string \<times> string) option) \<Rightarrow> bool" where
  "segmental m =
     ((\<forall>t out rest. m t = Some (out, rest) \<longrightarrow> (\<exists>u. t = backslash # u))
      \<and> (\<forall>s r. backslash \<notin> set s \<and> (r = [] \<or> hd r = backslash) \<longrightarrow>
            m (backslash # s @ r) =
              map_option (\<lambda>(out, rest). (out, rest @ r)) (m (backslash # s)))
      \<and> (\<forall>s out rest. backslash \<notin> set s \<and> m (backslash # s) = Some (out, rest) \<longrightarrow>
            backslash \<notin> set rest \<and> length rest < Suc (length s)
            \<and> (\<exists>body. out = backslash # body \<and> backslash \<notin> set body)))"

definition startsSegment :: "string \<Rightarrow> bool" where
  "startsSegment r = (r = [] \<or> hd r = backslash)"

text \<open>The four typo patches applied once each, in their order, at the start of a text.\<close>

definition patchOnce :: "string \<Rightarrow> string" where
  "patchOnce u =
     once fracSpaces
       (once phiSpaces
         (once (literal (backslash # ''delt a'') (backslash # ''delta''))
           (once (literal (backslash # ''partia l'') (backslash # ''partial'')) u)))"

section \<open>Properties\<close>

lemma decimal_nonempty: "decimal n \<noteq> []"
  by (subst decimal.simps) simp

lemma digit_char_in: "d < 10 \<Longrightarrow> digit_char d \<in> set ''0123456789''"
  unfolding digit_char_def by (rule nth_mem) simp

lemma hd_decimal_digit: "hd (decimal n) \<in> set ''0123456789''"
proof (induction n rule: decimal.induct)
  case (1 n)
  show ?case
  proof (cases "n < 10")
    case True
    then show ?thesis using digit_char_in [of n] by (subst decimal.simps) simp
  next
    case False
    then have "hd (decimal n) = hd (decimal (n div 10))"
      by (subst decimal.simps) (simp add: decimal_nonempty)
    with 1 False show ?thesis by simp
  qed
qed

lemma imageEntry_nonempty: "Boolean (imageEntry i img)"
  by (simp add: Boolean_def imageEntry_def)

lemma entries_by_index:
  "filter Boolean (map (\<lambda>(index, img). imageEntry index img) (enumerate 0 imgs))
     = map (\<lambda>i. imageEntry i (imgs ! i)) [0..<length imgs]"
proof -
  have "filter Boolean (map (\<lambda>(index, img). imageEntry index img) (enumerate 0 imgs))
      = map (\<lambda>(index, img). imageEntry index img) (enumerate 0 imgs)"
    by (rule filter_True) (auto simp: imageEntry_nonempty)
  also have "\<dots> = map (\<lambda>i. imageEntry i (imgs ! i)) [0..<length imgs]"
    by (rule nth_equalityI) (simp_all add: nth_enumerate_eq)
  finally show ?thesis .
qed

lemma imageDescriptions_by_index:
  "imageDescriptions imgs = join ''\<newline>\<newline>'' (map (\<lambda>i. imageEntry i (imgs ! i)) [0..<length imgs])"
  by (simp add: imageDescriptions_def entries_by_index)


lemma finalContext_unfold:
  "finalContext msgs summ txt imgs =
     [sanitize baseSystemMessage]
     @ (case summ of Some summary \<Rightarrow> [sanitize summary] | None \<Rightarrow> [])
     @ map sanitize msgs
     @ (if imgs = [] then [] else [sanitize (analysisMessage imgs)])
     @ [\<lparr> wire_role = User, wire_content = txt \<rparr>]"
  by (simp add: finalContext_def contextArray_def newMessagesToAdd_def userMessageForApi_def
      sanitize_def split: option.splits)

lemma handleSubmit_accepted:
  "\<not> submitBlocked s \<Longrightarrow> handleSubmit s =
     sendRequest (trim (input s)) (uploadedImages s) (messages s)
       (captureAndReset (trim (input s)) (uploadedImages s) s)"
  by (simp add: handleSubmit_def)

lemma handleSubmit_fields:
  assumes "\<not> submitBlocked s"
  shows "input (handleSubmit s) = []"
    and "uploadedImages (handleSubmit s) = []"
    and "messages (handleSubmit s) =
           messages s @ [userMessageForDisplay (trim (input s)) (uploadedImages s)]"
    and "isLoading (handleSubmit s)"
    and "aiResponseProgress (handleSubmit s) = 25"
    and "error (handleSubmit s) = None"
    and "inflight (handleSubmit s) = Some (uploadedImages s)"
    and "sent (handleSubmit s) = sent s @ [ChatRequest
           (finalContext (messages s) (internalSummary s) (trim (input s)) (uploadedImages s))
           (selectedModel s)]"
    and "awaitingJson (handleSubmit s) = None"
  using assms by (simp_all add: handleSubmit_def sendRequest_def captureAndReset_def)

text \<open>
  C1. When a submission is accepted, the request sent to the completion service carries,
  in this order: the persona message; the carried summary when there is one; the whole log
  as it was before the submission; when at least one image is staged, one message of role
  user that lists the description of every image under the headings IMAGE 1, IMAGE 2, ...;
  and last the message with the trimmed text of the user.
\<close>
theorem submitted_context_order:
  assumes "\<not> submitBlocked s"
  shows "sent (handleSubmit s) = sent s @ [ChatRequest
           ([sanitize baseSystemMessage]
            @ (case internalSummary s of Some summary \<Rightarrow> [sanitize summary] | None \<Rightarrow> [])
            @ map sanitize (messages s)
            @ (if uploadedImages s = [] then []
               else [\<lparr> wire_role = User, wire_content =
                 ''[CONTEXT: IMAGE ANALYSIS] The user has provided ''
                 @ decimal (length (uploadedImages s))
                 @ '' image(s). Here is the detailed analysis:\<newline>\<newline>''
                 @ join ''\<newline>\<newline>'' (map (\<lambda>i. ''[IMAGE '' @ decimal (i + 1) @ '' ANALYSIS]:\<newline>''
                      @ template_str (description (uploadedImages s ! i)))
                    [0..<length (uploadedImages s)])
                 @ ''\<newline>\<newline>(Refer to these as Image 1, Image 2, etc. Use this context to answer the user's questions.)'' \<rparr>])
            @ [\<lparr> wire_role = User, wire_content = trim (input s) \<rparr>])
           (selectedModel s)]"
proof -
  have a: "sanitize (analysisMessage imgs) = \<lparr> wire_role = User, wire_content =
      ''[CONTEXT: IMAGE ANALYSIS] The user has provided '' @ decimal (length imgs)
      @ '' image(s). Here is the detailed analysis:\<newline>\<newline>''
      @ join ''\<newline>\<newline>'' (map (\<lambda>i. ''[IMAGE '' @ decimal (i + 1) @ '' ANALYSIS]:\<newline>''
           @ template_str (description (imgs ! i))) [0..<length imgs])
      @ ''\<newline>\<newline>(Refer to these as Image 1, Image 2, etc. Use this context to answer the user's questions.)'' \<rparr>"
    for imgs
    by (simp add: sanitize_def analysisMessage_def imageDescriptions_by_index imageEntry_def)
  show ?thesis
    unfolding handleSubmit_fields(8) [OF assms] finalContext_unfold a ..
qed


lemma decimal_1: "decimal 1 = ''1''" "decimal (Suc 0) = ''1''"
  by (simp_all add: decimal.simps digit_char_def)

lemma trim_example: "trim '' What is this? '' = ''What is this?''"
  by (simp add: trim_def is_space_def)

lemma stagedState_accepted: "\<not> submitBlocked stagedState"
  by (simp add: submitBlocked_def stagedState_def initial_def isProcessingImage_def redCar_def)

theorem submitted_context_order_witness:
  "\<not> submitBlocked stagedState \<and>
   sent (handleSubmit stagedState) = [ChatRequest
     [sanitize baseSystemMessage,
      \<lparr> wire_role = User, wire_content =
        ''[CONTEXT: IMAGE ANALYSIS] The user has provided 1 image(s). Here is the detailed analysis:\<newline>\<newline>[IMAGE 1 ANALYSIS]:\<newline>a red car\<newline>\<newline>(Refer to these as Image 1, Image 2, etc. Use this context to answer the user's questions.)'' \<rparr>,
      \<lparr> wire_role = User, wire_content = ''What is this?'' \<rparr>]
     Mistral]"
  using submitted_context_order [OF stagedState_accepted] stagedState_accepted
  by (simp add: stagedState_def initial_def decimal_1 trim_example template_str_def redCar_def)

lemma map_sanitize_cong:
  assumes "map role xs = map role ys" and "map content xs = map content ys"
  shows "map sanitize xs = map sanitize ys"
proof (rule nth_equalityI)
  show len: "length (map sanitize xs) = length (map sanitize ys)"
    using assms(1) by (metis length_map)
  fix i assume "i < length (map sanitize xs)"
  then have i: "i < length xs" "i < length ys" using len by simp_all
  have "role (xs ! i) = role (ys ! i)"
    using assms(1) i by (metis nth_map)
  moreover have "content (xs ! i) = content (ys ! i)"
    using assms(2) i by (metis nth_map)
  ultimately show "map sanitize xs ! i = map sanitize ys ! i"
    using i by (simp add: sanitize_def)
qed

lemma imageDescriptions_cong:
  assumes "map description xs = map description ys"
  shows "imageDescriptions xs = imageDescriptions ys"
proof -
  have len: "length xs = length ys" using assms by (metis length_map)
  have "map (\<lambda>i. imageEntry i (xs ! i)) [0..<length xs] = map (\<lambda>i. imageEntry i (ys ! i)) [0..<length ys]"
  proof (rule nth_equalityI)
    show "length (map (\<lambda>i. imageEntry i (xs ! i)) [0..<length xs])
        = length (map (\<lambda>i. imageEntry i (ys ! i)) [0..<length ys])" using len by simp
    fix i assume "i < length (map (\<lambda>i. imageEntry i (xs ! i)) [0..<length xs])"
    then have i: "i < length xs" "i < length ys" using len by simp_all
    have "description (xs ! i) = description (ys ! i)"
      using assms i by (metis nth_map)
    then show "map (\<lambda>i. imageEntry i (xs ! i)) [0..<length xs] ! i
        = map (\<lambda>i. imageEntry i (ys ! i)) [0..<length ys] ! i"
      using i by (simp add: imageEntry_def)
  qed
  then show ?thesis by (simp add: imageDescriptions_by_index)
qed

text \<open>
  C3. Every element of the transmitted context is the pair of the role and the content of
  the message at the same position of the assembled array, every message of the log is
  transmitted as that pair, and two inputs that agree on roles, contents and image
  descriptions are transmitted identically: no other attribute of a message or of an image
  (its id, url, progress, status, upload flag) has any influence on what is sent.
\<close>
theorem wire_messages_are_projections:
  "length (finalContext msgs summ txt imgs) = length (contextArray msgs summ txt imgs)
   \<and> (\<forall>i < length (contextArray msgs summ txt imgs).
        finalContext msgs summ txt imgs ! i =
          \<lparr> wire_role = role (contextArray msgs summ txt imgs ! i),
            wire_content = content (contextArray msgs summ txt imgs ! i) \<rparr>)
   \<and> (\<forall>m \<in> set msgs. \<lparr> wire_role = role m, wire_content = content m \<rparr>
          \<in> set (finalContext msgs summ txt imgs))
   \<and> (map role msgs = map role msgs' \<and> map content msgs = map content msgs'
        \<and> map_option role summ = map_option role summ'
        \<and> map_option content summ = map_option content summ'
        \<and> map description imgs = map description imgs'
       \<longrightarrow> finalContext msgs summ txt imgs = finalContext msgs' summ' txt imgs')"
proof (intro conjI impI)
  show "length (finalContext msgs summ txt imgs) = length (contextArray msgs summ txt imgs)"
    by (simp add: finalContext_def)
  show "\<forall>i < length (contextArray msgs summ txt imgs).
        finalContext msgs summ txt imgs ! i =
          \<lparr> wire_role = role (contextArray msgs summ txt imgs ! i),
            wire_content = content (contextArray msgs summ txt imgs ! i) \<rparr>"
    by (simp add: finalContext_def sanitize_def)
  show "\<forall>m \<in> set msgs. \<lparr> wire_role = role m, wire_content = content m \<rparr>
          \<in> set (finalContext msgs summ txt imgs)"
    by (auto simp: finalContext_unfold sanitize_def)
next
  assume h: "map role msgs = map role msgs' \<and> map content msgs = map content msgs'
        \<and> map_option role summ = map_option role summ'
        \<and> map_option content summ = map_option content summ'
        \<and> map description imgs = map description imgs'"
  then have m: "map sanitize msgs = map sanitize msgs'"
    by (intro map_sanitize_cong) simp_all
  have len: "length imgs = length imgs'" using h by (metis length_map)
  have d: "imageDescriptions imgs = imageDescriptions imgs'"
    using h by (intro imageDescriptions_cong) simp
  have a: "sanitize (analysisMessage imgs) = sanitize (analysisMessage imgs')"
    by (simp add: sanitize_def analysisMessage_def d len)
  have e: "(imgs = []) = (imgs' = [])" using len by auto
  have su: "(case summ of Some summary \<Rightarrow> [sanitize summary] | None \<Rightarrow> [])
      = (case summ' of Some summary \<Rightarrow> [sanitize summary] | None \<Rightarrow> [])"
    using h by (cases summ; cases summ') (simp_all add: sanitize_def)
  show "finalContext msgs summ txt imgs = finalContext msgs' summ' txt imgs'"
    unfolding finalContext_unfold m a e su ..
qed


theorem wire_messages_are_projections_witness:
  "\<lparr> wire_role = User, wire_content = ''Hello'' \<rparr>
     \<in> set (finalContext [userMessageForDisplay ''Hello'' [redCar]] None ''Hi'' [])
   \<and> finalContext [userMessageForDisplay ''Hello'' [redCar]] None ''Hi'' []
     = finalContext [userMessageForApi ''Hello''] None ''Hi'' []"
proof -
  let ?a = "[userMessageForDisplay ''Hello'' [redCar]]"
  let ?b = "[userMessageForApi ''Hello'']"
  note t = wire_messages_are_projections [of ?a None "''Hi''" "[]" ?b None "[]"]
  have h: "map role ?a = map role ?b \<and> map content ?a = map content ?b
      \<and> map_option role (None :: Message option) = map_option role (None :: Message option)
      \<and> map_option content (None :: Message option) = map_option content (None :: Message option)
      \<and> map description ([] :: ImageData list) = map description ([] :: ImageData list)"
    by (simp add: userMessageForDisplay_def userMessageForApi_def)
  have "\<forall>m \<in> set ?a. \<lparr> wire_role = role m, wire_content = content m \<rparr>
      \<in> set (finalContext ?a None ''Hi'' [])"
    using t by blast
  then have 1: "\<lparr> wire_role = User, wire_content = ''Hello'' \<rparr>
      \<in> set (finalContext ?a None ''Hi'' [])"
    by (simp add: userMessageForDisplay_def)
  have 2: "finalContext ?a None ''Hi'' [] = finalContext ?b None ''Hi'' []"
    using t h by blast
  from 1 2 show ?thesis by (rule conjI)
qed

subsection \<open>Steps of the conversation state machine\<close>

lemmas response_defs = respond_def bodyParsed_def fetchResolved_def fetchRejected_def
  catchAndFinally_def

lemma respond_Ok_fields:
  assumes "inflight s = Some imgs"
  shows "messages (respond (Ok m) s) = applyResponse imgs m (messages s)"
    and "aiResponseProgress (respond (Ok m) s) = 100"
    and "\<not> isLoading (respond (Ok m) s)"
    and "inflight (respond (Ok m) s) = None"
    and "uploadedImages (respond (Ok m) s) = uploadedImages s"
    and "error (respond (Ok m) s) = error s"
    and "resetTimeouts (respond (Ok m) s) = resetTimeouts s + 1"
  using assms by (simp_all add: response_defs)

lemma respond_NotOk_fields:
  assumes "inflight s = Some imgs"
  shows "messages (respond (NotOk e) s) = messages s"
    and "aiResponseProgress (respond (NotOk e) s) = 0"
    and "\<not> isLoading (respond (NotOk e) s)"
    and "inflight (respond (NotOk e) s) = None"
    and "uploadedImages (respond (NotOk e) s) = uploadedImages s"
    and "error (respond (NotOk e) s) = Some (errorOr e ''Failed to get response'')"
  using assms by (simp_all add: response_defs)

lemma respond_Rejected_fields:
  assumes "inflight s = Some imgs"
  shows "messages (respond (Rejected msg) s) = messages s"
    and "aiResponseProgress (respond (Rejected msg) s) = 0"
    and "\<not> isLoading (respond (Rejected msg) s)"
    and "inflight (respond (Rejected msg) s) = None"
    and "uploadedImages (respond (Rejected msg) s) = uploadedImages s"
    and "error (respond (Rejected msg) s) = Some msg"
  using assms by (simp_all add: response_defs)

text \<open>The two steps of a response, each on its own.\<close>

lemma fetchResolved_fields:
  assumes "inflight s = Some imgs"
  shows "messages (fetchResolved ok s) = messages s"
    and "aiResponseProgress (fetchResolved ok s) = 85"
    and "isLoading (fetchResolved ok s) = isLoading s"
    and "inflight (fetchResolved ok s) = Some imgs"
    and "awaitingJson (fetchResolved ok s) = Some ok"
    and "uploadedImages (fetchResolved ok s) = uploadedImages s"
    and "error (fetchResolved ok s) = error s"
  using assms by (simp_all add: fetchResolved_def)

lemma bodyParsed_message_fields:
  assumes "inflight s = Some imgs" and "awaitingJson s = Some True" and "resp_message d = Some m"
  shows "messages (bodyParsed (Resolved d) s) = applyResponse imgs m (messages s)"
    and "aiResponseProgress (bodyParsed (Resolved d) s) = 100"
    and "\<not> isLoading (bodyParsed (Resolved d) s)"
    and "resetTimeouts (bodyParsed (Resolved d) s) = resetTimeouts s + 1"
    and "error (bodyParsed (Resolved d) s) = error s"
  using assms by (simp_all add: bodyParsed_def)

lemma bodyParsed_error_fields:
  assumes "inflight s = Some imgs" and "awaitingJson s = Some False"
  shows "messages (bodyParsed (Resolved d) s) = messages s"
    and "aiResponseProgress (bodyParsed (Resolved d) s) = 0"
    and "\<not> isLoading (bodyParsed (Resolved d) s)"
    and "error (bodyParsed (Resolved d) s) = Some (errorOr (resp_error d) ''Failed to get response'')"
  using assms by (simp_all add: bodyParsed_def catchAndFinally_def)

lemma bodyParsed_rejected_fields:
  assumes "inflight s = Some imgs" and "awaitingJson s = Some ok"
  shows "messages (bodyParsed (JsonRejected msg) s) = messages s"
    and "aiResponseProgress (bodyParsed (JsonRejected msg) s) = 0"
    and "\<not> isLoading (bodyParsed (JsonRejected msg) s)"
    and "error (bodyParsed (JsonRejected msg) s) = Some msg"
  using assms by (simp_all add: bodyParsed_def catchAndFinally_def)

lemma uploadedImages_response_steps:
  shows "uploadedImages (fetchResolved ok s) = uploadedImages s"
    and "uploadedImages (bodyParsed j s) = uploadedImages s"
    and "uploadedImages (fetchRejected msg s) = uploadedImages s"
    and "uploadedImages (respond outcome s) = uploadedImages s"
proof -
  show 1: "uploadedImages (fetchResolved ok s) = uploadedImages s" for ok s
    by (simp add: fetchResolved_def split: option.splits)
  show 2: "uploadedImages (bodyParsed j s) = uploadedImages s" for j s
    by (cases j) (simp_all add: bodyParsed_def catchAndFinally_def split: option.splits)
  show 3: "uploadedImages (fetchRejected msg s) = uploadedImages s" for msg s
    by (simp add: fetchRejected_def catchAndFinally_def split: option.splits)
  show "uploadedImages (respond outcome s) = uploadedImages s"
    by (cases outcome) (simp_all add: respond_def 1 2 3)
qed

lemma analysis_texts_differ:
  "content (analysisMsg imgs) \<noteq> content (analysisMessage imgs)"
proof
  assume "content (analysisMsg imgs) = content (analysisMessage imgs)"
  then obtain r1 r2 where eq: "decimal (length imgs) @ r1 = CHR ''i'' # r2"
    by (simp add: analysisMsg_def analysisMessage_def)
  obtain d ds where d: "decimal (length imgs) = d # ds"
    using decimal_nonempty [of "length imgs"] by (cases "decimal (length imgs)") auto
  with eq have "d = CHR ''i''" by simp
  moreover have "d \<in> set ''0123456789''"
    using hd_decimal_digit [of "length imgs"] d by simp
  ultimately show False by simp
qed

text \<open>
  C10. For a turn submitted with at least one image, the analysis message written to the log
  on success has another content than the one sent in the request of that turn (the request
  names the number of images, the log entry starts its sentence with the word images); the
  log entry, not the transmitted message, is what every context assembled from that log
  afterwards contains.
\<close>

theorem persisted_analysis_differs:
  assumes "\<not> submitBlocked s" and "uploadedImages s \<noteq> []"
  shows "content (analysisMsg (uploadedImages s)) \<noteq> content (analysisMessage (uploadedImages s))
    \<and> sanitize (analysisMsg (uploadedImages s)) \<noteq> sanitize (analysisMessage (uploadedImages s))
    \<and> last (sent (handleSubmit s)) = ChatRequest
          (finalContext (messages s) (internalSummary s) (trim (input s)) (uploadedImages s))
          (selectedModel s)
    \<and> sanitize (analysisMessage (uploadedImages s))
          \<in> set (finalContext (messages s) (internalSummary s) (trim (input s)) (uploadedImages s))
    \<and> analysisMsg (uploadedImages s) \<in> set (messages (respond (Ok m) (handleSubmit s)))
    \<and> (\<forall>summ txt imgs'. sanitize (analysisMsg (uploadedImages s))
          \<in> set (finalContext (messages (respond (Ok m) (handleSubmit s))) summ txt imgs'))"
proof -
  let ?imgs = "uploadedImages s"
  have 1: "content (analysisMsg ?imgs) \<noteq> content (analysisMessage ?imgs)"
    by (rule analysis_texts_differ)
  then have 2: "sanitize (analysisMsg ?imgs) \<noteq> sanitize (analysisMessage ?imgs)"
    by (simp add: sanitize_def)
  have 3: "last (sent (handleSubmit s)) = ChatRequest
      (finalContext (messages s) (internalSummary s) (trim (input s)) ?imgs) (selectedModel s)"
    by (simp add: handleSubmit_fields(8) [OF assms(1)])
  have 4: "sanitize (analysisMessage ?imgs)
      \<in> set (finalContext (messages s) (internalSummary s) (trim (input s)) ?imgs)"
    using assms(2) by (simp add: finalContext_unfold)
  have log: "messages (respond (Ok m) (handleSubmit s)) =
      messages s @ [analysisMsg ?imgs, userMessageForDisplay (trim (input s)) ?imgs, m]"
    using assms(2)
    by (simp add: respond_Ok_fields(1) [OF handleSubmit_fields(7) [OF assms(1)]]
        handleSubmit_fields(3) [OF assms(1)] applyResponse_def)
  have 5: "analysisMsg ?imgs \<in> set (messages (respond (Ok m) (handleSubmit s)))"
    by (simp add: log)
  have 6: "\<forall>summ txt imgs'. sanitize (analysisMsg ?imgs)
      \<in> set (finalContext (messages (respond (Ok m) (handleSubmit s))) summ txt imgs')"
    by (simp add: log finalContext_unfold)
  from 1 2 3 4 5 6 show ?thesis by blast
qed

theorem persisted_analysis_differs_witness:
  "\<not> submitBlocked stagedState \<and> uploadedImages stagedState \<noteq> []
   \<and> content (analysisMsg [redCar]) \<noteq> content (analysisMessage [redCar])
   \<and> analysisMsg [redCar] \<in> set (messages (respond (Ok reply) (handleSubmit stagedState)))"
proof -
  have u: "uploadedImages stagedState = [redCar]"
    by (simp add: stagedState_def)
  then have ne: "uploadedImages stagedState \<noteq> []" by simp
  from persisted_analysis_differs [OF stagedState_accepted ne, of reply] u
    stagedState_accepted
  show ?thesis by simp
qed

subsection \<open>Invariants of the event loop\<close>

lemma updateImage_Nil [simp]: "updateImage i u [] = []"
  by (simp add: updateImage_def)

lemma turnInv_initial: "turnInv initial"
  by (simp add: turnInv_def initial_def)

lemma turnInv_handleSubmit: "turnInv s \<Longrightarrow> turnInv (handleSubmit s)"
  by (simp add: turnInv_def handleSubmit_def sendRequest_def captureAndReset_def)

lemma turnInv_fetchResolved: "turnInv s \<Longrightarrow> turnInv (fetchResolved ok s)"
  by (auto simp: turnInv_def fetchResolved_def split: option.splits)

lemma turnInv_bodyParsed: "turnInv s \<Longrightarrow> turnInv (bodyParsed j s)"
  by (cases j) (auto simp: turnInv_def bodyParsed_def catchAndFinally_def split: option.splits)

lemma turnInv_fetchRejected: "turnInv s \<Longrightarrow> turnInv (fetchRejected msg s)"
  by (auto simp: turnInv_def fetchRejected_def catchAndFinally_def split: option.splits)

lemma turnInv_respond: "turnInv s \<Longrightarrow> turnInv (respond outcome s)"
  by (cases outcome)
    (simp_all add: respond_def turnInv_fetchResolved turnInv_bodyParsed turnInv_fetchRejected)

lemma turnInv_fire:
  assumes "turnInv s" and "enabled ev s"
  shows "turnInv (fire ev s)"
proof (cases ev)
  case Submit
  then show ?thesis using assms by (simp add: turnInv_handleSubmit)
next
  case (FetchResolved ok)
  then show ?thesis using assms by (simp add: turnInv_fetchResolved)
next
  case (BodyParsed j)
  then show ?thesis using assms by (simp add: turnInv_bodyParsed)
next
  case (FetchRejected msg)
  then show ?thesis using assms by (simp add: turnInv_fetchRejected)
next
  case Tick
  then show ?thesis using assms by (auto simp: turnInv_def tick_def crawl_def)
next
  case (UploadFile f rnd)
  then show ?thesis using assms by (auto simp: turnInv_def handleImageUpload_def Let_def)
next
  case (UploadResponse k outcome)
  then show ?thesis using assms
    by (cases outcome) (auto simp: turnInv_def uploadResponse_def uploadFailed_def Let_def)
qed (use assms in \<open>auto simp: turnInv_def progressReset_def clearChat_def readerLoaded_def
      readerError_def uploadFailed_def uploadCrawl_def feedbackReset_def removeImage_def Let_def\<close>)

lemma reachable_turnInv: "reachable s \<Longrightarrow> turnInv s"
  by (induction rule: reachable.induct) (simp_all add: turnInv_initial turnInv_fire)

lemma run_turnInv: "turnInv s \<Longrightarrow> run evs s = Some s' \<Longrightarrow> turnInv s'"
proof (induction evs arbitrary: s)
  case Nil
  then show ?case by simp
next
  case (Cons ev evs)
  from Cons.prems have en: "enabled ev s" and r: "run evs (fire ev s) = Some s'"
    by (auto split: if_splits)
  from Cons.IH [OF turnInv_fire [OF Cons.prems(1) en] r] show ?case .
qed

lemma run_reachable: "reachable s \<Longrightarrow> run evs s = Some s' \<Longrightarrow> reachable s'"
proof (induction evs arbitrary: s)
  case Nil
  then show ?case by simp
next
  case (Cons ev evs)
  from Cons.prems have en: "enabled ev s" and r: "run evs (fire ev s) = Some s'"
    by (auto split: if_splits)
  from Cons.IH [OF reachable_fire [OF Cons.prems(1) en] r] show ?case .
qed



subsection \<open>The log and image turns\<close>



text \<open>The example session, evaluated.\<close>

lemmas step_defs = handleImageUpload_def readerLoaded_def uploadResponse_def handleSubmit_def
  sendRequest_def captureAndReset_def submitBlocked_def isProcessingImage_def updateImage_def
  mergeImage_def noUpdates_def initialImageData_def removeAt_def startsWith_def Let_def

lemma imageTurn_runs:
  shows "run imageTurn initial = Some (the (run imageTurn initial))"
    and "isLoading (the (run imageTurn initial))"
    and "messages (the (run imageTurn initial)) =
       [userMessageForDisplay [] [\<lparr> img_id = Some ''82mvyr'', url = ''data:image/png;base64,AAAA'',
          description = Some ([dquote] @ ''a red car'' @ [dquote]), processed = Some True,
          progress = Some 100, status = Some ''Complete'', isUploading = Some False \<rparr>]]"
    and "awaitingJson (the (run imageTurn initial)) = None"
  by (simp_all add: imageTurn_def initial_def pngFile_def step_defs trim_def)




subsection \<open>Failure of the completion request\<close>

text \<open>
  C4, as stated for every error string, fails for the empty string: \<^verbatim>\<open>data.error || ...\<close>
  replaces it by the generic message.
\<close>

theorem empty_error_replaced:
  "inflight (handleSubmit stagedState) \<noteq> None
   \<and> error (respond (NotOk (Some [])) (handleSubmit stagedState)) = Some ''Failed to get response''
   \<and> error (respond (NotOk (Some [])) (handleSubmit stagedState)) \<noteq> Some []"
  by (simp add: respond_NotOk_fields [OF handleSubmit_fields(7) [OF stagedState_accepted]]
      handleSubmit_fields(7) [OF stagedState_accepted] errorOr_def)

text \<open>
  C4, amended. When the completion call ends with a status outside 2xx and a body whose
  error field is a non-empty string, the component leaves the loading state with exactly
  that string as its error, the log is unchanged by the failure (after a submission from
  an idle state it is the prior log followed by the user message of the turn), and the
  progress value is 0. When the error field is the empty string or absent, the error is the
  generic message, with the same log and progress value. The same holds when other events
  have happened between the arrival of the response and the reading of its body.
\<close>

theorem failed_response_sets_error:
  assumes "inflight s1 \<noteq> None" and "e \<noteq> []"
  shows "error (respond (NotOk (Some e)) s1) = Some e
    \<and> \<not> isLoading (respond (NotOk (Some e)) s1)
    \<and> messages (respond (NotOk (Some e)) s1) = messages s1
    \<and> aiResponseProgress (respond (NotOk (Some e)) s1) = 0
    \<and> (\<not> submitBlocked s \<longrightarrow>
         messages (respond (NotOk (Some e)) (handleSubmit s)) =
           messages s @ [userMessageForDisplay (trim (input s)) (uploadedImages s)]
         \<and> error (respond (NotOk (Some e)) (handleSubmit s)) = Some e
         \<and> aiResponseProgress (respond (NotOk (Some e)) (handleSubmit s)) = 0)
    \<and> error (respond (NotOk (Some [])) s1) = Some ''Failed to get response''
    \<and> error (respond (NotOk None) s1) = Some ''Failed to get response''
    \<and> (\<forall>e'. \<not> isLoading (respond (NotOk e') s1)
           \<and> messages (respond (NotOk e') s1) = messages s1
           \<and> aiResponseProgress (respond (NotOk e') s1) = 0)
    \<and> (awaitingJson s1 = Some False \<longrightarrow>
         (\<forall>d. error (bodyParsed (Resolved d) s1) =
                 Some (case resp_error d of
                         None \<Rightarrow> ''Failed to get response''
                       | Some t \<Rightarrow> if t = [] then ''Failed to get response'' else t)
              \<and> \<not> isLoading (bodyParsed (Resolved d) s1)
              \<and> messages (bodyParsed (Resolved d) s1) = messages s1
              \<and> aiResponseProgress (bodyParsed (Resolved d) s1) = 0))"
proof -
  from assms(1) obtain imgs where fl: "inflight s1 = Some imgs" by blast
  note r = respond_NotOk_fields [OF fl]
  have 1: "error (respond (NotOk (Some e)) s1) = Some e"
    using assms(2) by (simp add: r errorOr_def)
  have 2: "messages (respond (NotOk (Some e)) (handleSubmit s)) =
           messages s @ [userMessageForDisplay (trim (input s)) (uploadedImages s)]
         \<and> error (respond (NotOk (Some e)) (handleSubmit s)) = Some e
         \<and> aiResponseProgress (respond (NotOk (Some e)) (handleSubmit s)) = 0"
    if a: "\<not> submitBlocked s"
    using assms(2)
    by (simp add: respond_NotOk_fields [OF handleSubmit_fields(7) [OF a]]
        handleSubmit_fields(3) [OF a] errorOr_def)
  have 3: "error (respond (NotOk (Some [])) s1) = Some ''Failed to get response''"
      "error (respond (NotOk None) s1) = Some ''Failed to get response''"
    by (simp_all add: r errorOr_def)
  have 4: "\<forall>d. error (bodyParsed (Resolved d) s1) =
                 Some (case resp_error d of
                         None \<Rightarrow> ''Failed to get response''
                       | Some t \<Rightarrow> if t = [] then ''Failed to get response'' else t)
              \<and> \<not> isLoading (bodyParsed (Resolved d) s1)
              \<and> messages (bodyParsed (Resolved d) s1) = messages s1
              \<and> aiResponseProgress (bodyParsed (Resolved d) s1) = 0"
    if a: "awaitingJson s1 = Some False"
    by (simp add: bodyParsed_error_fields [OF fl a] errorOr_def)
  from 1 2 3 4 r show ?thesis by simp
qed

theorem failed_response_sets_error_witness:
  "inflight (handleSubmit stagedState) \<noteq> None \<and> ''rate limited'' \<noteq> []
   \<and> \<not> submitBlocked stagedState
   \<and> error (respond (NotOk (Some ''rate limited'')) (handleSubmit stagedState)) = Some ''rate limited''
   \<and> messages (respond (NotOk (Some ''rate limited'')) (handleSubmit stagedState)) =
       [userMessageForDisplay ''What is this?'' [redCar]]
   \<and> aiResponseProgress (respond (NotOk (Some ''rate limited'')) (handleSubmit stagedState)) = 0
   \<and> error (respond (NotOk None) (handleSubmit stagedState)) = Some ''Failed to get response''
   \<and> awaitingJson (fetchResolved False (handleSubmit stagedState)) = Some False
   \<and> error (bodyParsed (Resolved \<lparr> resp_message = None, resp_error = Some ''rate limited'' \<rparr>)
        (fetchResolved False (handleSubmit stagedState))) = Some ''rate limited''"
proof -
  have fl: "inflight (handleSubmit stagedState) \<noteq> None"
    by (simp add: handleSubmit_fields(7) [OF stagedState_accepted])
  have ne: "''rate limited'' \<noteq> []" by simp
  have u: "uploadedImages stagedState = [redCar]" "messages stagedState = []"
      "input stagedState = '' What is this? ''"
    by (simp_all add: stagedState_def initial_def)
  note t = failed_response_sets_error [OF fl ne, of stagedState]
  have 1: "error (respond (NotOk (Some ''rate limited'')) (handleSubmit stagedState)) = Some ''rate limited''"
    using t by blast
  have 2: "aiResponseProgress (respond (NotOk (Some ''rate limited'')) (handleSubmit stagedState)) = 0"
    using t by blast
  have "messages (respond (NotOk (Some ''rate limited'')) (handleSubmit stagedState)) =
      messages stagedState @ [userMessageForDisplay (trim (input stagedState)) (uploadedImages stagedState)]"
    using t stagedState_accepted by blast
  then have 3: "messages (respond (NotOk (Some ''rate limited'')) (handleSubmit stagedState)) =
       [userMessageForDisplay ''What is this?'' [redCar]]"
    by (simp add: u trim_example)
  have 4: "error (respond (NotOk None) (handleSubmit stagedState)) = Some ''Failed to get response''"
    using t by blast
  have fl2: "inflight (fetchResolved False (handleSubmit stagedState)) \<noteq> None"
    and aw: "awaitingJson (fetchResolved False (handleSubmit stagedState)) = Some False"
    by (simp_all add: fetchResolved_fields [OF handleSubmit_fields(7) [OF stagedState_accepted]])
  from failed_response_sets_error [OF fl2 ne, of stagedState] aw
  have "error (bodyParsed (Resolved \<lparr> resp_message = None, resp_error = Some ''rate limited'' \<rparr>)
        (fetchResolved False (handleSubmit stagedState))) =
      Some (case resp_error \<lparr> resp_message = None, resp_error = Some ''rate limited'' \<rparr> of
              None \<Rightarrow> ''Failed to get response''
            | Some t \<Rightarrow> if t = [] then ''Failed to get response'' else t)"
    by blast
  then have 5: "error (bodyParsed (Resolved \<lparr> resp_message = None, resp_error = Some ''rate limited'' \<rparr>)
        (fetchResolved False (handleSubmit stagedState))) = Some ''rate limited''"
    by simp
  from fl ne stagedState_accepted 1 2 3 4 aw 5 show ?thesis by blast
qed

subsection \<open>The simulated progress value\<close>

text \<open>The session of two quick turns, evaluated.\<close>

lemma quickTurns_runs:
  shows "run quickTurns initial = Some (the (run quickTurns initial))"
    and "isLoading (the (run quickTurns initial))"
    and "aiResponseProgress (the (run quickTurns initial)) = 26"
    and "resetTimeouts (the (run quickTurns initial)) = 1"
    and "awaitingJson (the (run quickTurns initial)) = None"
  by (simp_all add: quickTurns_def initial_def step_defs response_defs tick_def crawl_def
      trim_def is_space_def)

text \<open>
  C7, as stated, fails: the timeout that resets the value one second after a success is
  never cancelled. When the next turn is submitted within that second, the timeout fires
  during the flight of the new request: the value, 26 after the first tick, drops to 0.
\<close>

theorem progress_drops_in_flight:
  "reachable (the (run quickTurns initial))
   \<and> isLoading (the (run quickTurns initial))
   \<and> aiResponseProgress (the (run quickTurns initial)) = 26
   \<and> enabled ProgressReset (the (run quickTurns initial))
   \<and> isLoading (fire ProgressReset (the (run quickTurns initial)))
   \<and> aiResponseProgress (fire ProgressReset (the (run quickTurns initial))) = 0"
proof -
  have "reachable (the (run quickTurns initial))"
    using run_reachable [OF reachable_initial quickTurns_runs(1)] .
  then show ?thesis
    by (simp add: quickTurns_runs(2,3,4) progressReset_def)
qed

text \<open>During a flight every event other than a pending reset timeout and the end of the
  request leaves the progress value or raises it.\<close>

lemma in_flight_progress_step:
  assumes "isLoading s" and "aiResponseProgress s \<le> 85" and "enabled ev s"
    and "ev \<noteq> ProgressReset" and "\<not> endsTurn ev"
  shows "isLoading (fire ev s) \<and> aiResponseProgress s \<le> aiResponseProgress (fire ev s)"
proof (cases ev)
  case Submit
  then show ?thesis using assms by (simp add: handleSubmit_def submitBlocked_def)
next
  case (FetchResolved ok)
  then show ?thesis using assms by (auto simp: fetchResolved_def split: option.splits)
next
  case (UploadResponse k outcome)
  then show ?thesis using assms
    by (cases outcome) (auto simp: uploadResponse_def uploadFailed_def Let_def)
qed (use assms in \<open>auto simp: endsTurn_def tick_def crawl_def readerLoaded_def
      readerError_def uploadFailed_def uploadCrawl_def feedbackReset_def removeImage_def Let_def\<close>)

text \<open>
  C7, amended. In every reachable state with a completion request in flight the progress
  value is at most 85, hence below 100, and while the fetch is pending the progress interval
  is live. A firing of the interval never lowers the value, raises it by one below 85 and
  keeps it at most 85; every other event of the flight, except the end of the request and
  a reset timeout that is still pending, leaves the value or raises it, and the arrival of
  the response sets it to 85. When the body has been read the value is 100 on success, and
  the delayed reset then makes it 0; when a failure is handled (a status outside 2xx, an
  unreadable body or a rejected request) it is 0.
\<close>

theorem progress_capped_in_flight:
  assumes "reachable s" and "isLoading s"
  shows "inflight s \<noteq> None
    \<and> aiResponseProgress s \<le> 85 \<and> aiResponseProgress s < 100
    \<and> (awaitingJson s = None \<longrightarrow> progressIntervals s > 0)
    \<and> aiResponseProgress s \<le> aiResponseProgress (tick s)
    \<and> (aiResponseProgress s < 85 \<longrightarrow> aiResponseProgress (tick s) = aiResponseProgress s + 1)
    \<and> aiResponseProgress (tick s) \<le> 85
    \<and> (\<forall>ev. enabled ev s \<and> ev \<noteq> ProgressReset \<and> \<not> endsTurn ev \<longrightarrow>
          isLoading (fire ev s) \<and> aiResponseProgress s \<le> aiResponseProgress (fire ev s))
    \<and> aiResponseProgress (fetchResolved ok s) = 85
    \<and> (awaitingJson s = Some True \<and> resp_message d = Some m \<longrightarrow>
          aiResponseProgress (bodyParsed (Resolved d) s) = 100
          \<and> enabled ProgressReset (bodyParsed (Resolved d) s)
          \<and> aiResponseProgress (progressReset (bodyParsed (Resolved d) s)) = 0)
    \<and> (awaitingJson s = Some False \<longrightarrow> aiResponseProgress (bodyParsed (Resolved d) s) = 0)
    \<and> (awaitingJson s \<noteq> None \<longrightarrow> aiResponseProgress (bodyParsed (JsonRejected msg) s) = 0)
    \<and> aiResponseProgress (fetchRejected msg s) = 0
    \<and> aiResponseProgress (respond (Ok m) s) = 100
    \<and> enabled ProgressReset (respond (Ok m) s)
    \<and> aiResponseProgress (progressReset (respond (Ok m) s)) = 0
    \<and> aiResponseProgress (respond (NotOk e) s) = 0
    \<and> aiResponseProgress (respond (Rejected msg) s) = 0"
proof -
  from reachable_turnInv [OF assms(1)] assms(2)
  have fl: "inflight s \<noteq> None" and cap: "aiResponseProgress s \<le> 85"
    and iv: "awaitingJson s = None \<longrightarrow> progressIntervals s > 0"
    by (simp_all add: turnInv_def)
  from fl obtain imgs where i: "inflight s = Some imgs" by blast
  have t: "aiResponseProgress s \<le> aiResponseProgress (tick s)"
      "aiResponseProgress s < 85 \<longrightarrow> aiResponseProgress (tick s) = aiResponseProgress s + 1"
      "aiResponseProgress (tick s) \<le> 85"
    using cap by (simp_all add: tick_def crawl_def)
  have mono: "\<forall>ev. enabled ev s \<and> ev \<noteq> ProgressReset \<and> \<not> endsTurn ev \<longrightarrow>
      isLoading (fire ev s) \<and> aiResponseProgress s \<le> aiResponseProgress (fire ev s)"
    using in_flight_progress_step [OF assms(2) cap] by blast
  have r: "enabled ProgressReset (respond (Ok m) s)"
      "aiResponseProgress (progressReset (respond (Ok m) s)) = 0"
    by (simp_all add: respond_Ok_fields [OF i] progressReset_def)
  have b1: "aiResponseProgress (bodyParsed (Resolved d) s) = 100
          \<and> enabled ProgressReset (bodyParsed (Resolved d) s)
          \<and> aiResponseProgress (progressReset (bodyParsed (Resolved d) s)) = 0"
    if "awaitingJson s = Some True" and "resp_message d = Some m"
    by (simp add: bodyParsed_message_fields [OF i that] progressReset_def)
  have b2: "aiResponseProgress (bodyParsed (Resolved d) s) = 0" if "awaitingJson s = Some False"
    by (simp add: bodyParsed_error_fields [OF i that])
  have b3: "aiResponseProgress (bodyParsed (JsonRejected msg) s) = 0" if "awaitingJson s \<noteq> None"
  proof -
    from that obtain ok' where "awaitingJson s = Some ok'" by blast
    from bodyParsed_rejected_fields(2) [OF i this] show ?thesis .
  qed
  have f: "aiResponseProgress (fetchResolved ok s) = 85"
      "aiResponseProgress (fetchRejected msg s) = 0"
    by (simp_all add: fetchResolved_fields [OF i] fetchRejected_def catchAndFinally_def i)
  from fl iv cap t mono r b1 b2 b3 f show ?thesis
    by (simp add: respond_Ok_fields(2) [OF i] respond_NotOk_fields(2) [OF i]
        respond_Rejected_fields(2) [OF i])
qed

theorem progress_capped_in_flight_witness:
  "reachable (the (run imageTurn initial)) \<and> isLoading (the (run imageTurn initial))
   \<and> aiResponseProgress (the (run imageTurn initial)) < 100
   \<and> enabled Tick (the (run imageTurn initial)) \<and> Tick \<noteq> ProgressReset \<and> \<not> endsTurn Tick
   \<and> aiResponseProgress (the (run imageTurn initial))
        \<le> aiResponseProgress (fire Tick (the (run imageTurn initial)))
   \<and> aiResponseProgress (fetchResolved True (the (run imageTurn initial))) = 85
   \<and> aiResponseProgress (respond (Ok reply) (the (run imageTurn initial))) = 100
   \<and> aiResponseProgress (progressReset (respond (Ok reply) (the (run imageTurn initial)))) = 0
   \<and> aiResponseProgress (respond (NotOk None) (the (run imageTurn initial))) = 0
   \<and> reachable (fetchResolved True (the (run imageTurn initial)))
   \<and> isLoading (fetchResolved True (the (run imageTurn initial)))
   \<and> awaitingJson (fetchResolved True (the (run imageTurn initial))) = Some True
   \<and> aiResponseProgress (bodyParsed (Resolved \<lparr> resp_message = Some reply, resp_error = None \<rparr>)
         (fetchResolved True (the (run imageTurn initial)))) = 100
   \<and> aiResponseProgress (bodyParsed (JsonRejected ''Unexpected token'')
         (fetchResolved True (the (run imageTurn initial)))) = 0"
proof -
  let ?st = "the (run imageTurn initial)"
  let ?d = "\<lparr> resp_message = Some reply, resp_error = None \<rparr>"
  have r: "reachable ?st"
    using run_reachable [OF reachable_initial imageTurn_runs(1)] .
  note t = progress_capped_in_flight [OF r imageTurn_runs(2), of True ?d reply "[]" None]
  from t imageTurn_runs(4) have en: "enabled Tick ?st"
    by simp
  have nt: "Tick \<noteq> ProgressReset \<and> \<not> endsTurn Tick"
    by (simp add: endsTurn_def)
  from t en nt have m: "aiResponseProgress ?st \<le> aiResponseProgress (fire Tick ?st)"
    by blast
  from t obtain imgs where i: "inflight ?st = Some imgs" by blast
  have en2: "enabled (FetchResolved True) ?st"
    by (simp add: i imageTurn_runs(4))
  have r2: "reachable (fetchResolved True ?st)"
    using reachable_fire [OF r en2] by simp
  have l2: "isLoading (fetchResolved True ?st)"
    by (simp add: fetchResolved_fields(3) [OF i] imageTurn_runs(2))
  have a2: "awaitingJson (fetchResolved True ?st) = Some True"
    by (rule fetchResolved_fields(5) [OF i])
  note t2 = progress_capped_in_flight [OF r2 l2, of True ?d reply "''Unexpected token''" None]
  have d: "resp_message ?d = Some reply" by simp
  from t2 a2 d have b1: "aiResponseProgress (bodyParsed (Resolved ?d) (fetchResolved True ?st)) = 100"
    by blast
  from t2 a2 have b2: "aiResponseProgress (bodyParsed (JsonRejected ''Unexpected token'')
      (fetchResolved True ?st)) = 0"
    by simp
  from t r imageTurn_runs(2) en nt m r2 l2 a2 b1 b2 show ?thesis by blast
qed

subsection \<open>The staging area during a turn\<close>

text \<open>
  C9. When a submission is accepted, the first part of the handler empties the text field
  and the staging area, appends the user message carrying the staged images to the log and
  sends nothing; the request is sent by the part that follows. From then on, in every state
  reached while a request is in flight, the staging area is empty, and it is still empty
  when the response has been handled, whatever the outcome and at either of its two
  steps: the attachments of the turn are in no later submission.
\<close>

theorem submit_clears_staging:
  assumes "\<not> submitBlocked s"
  shows "input (captureAndReset (trim (input s)) (uploadedImages s) s) = []
    \<and> uploadedImages (captureAndReset (trim (input s)) (uploadedImages s) s) = []
    \<and> sent (captureAndReset (trim (input s)) (uploadedImages s) s) = sent s
    \<and> handleSubmit s = sendRequest (trim (input s)) (uploadedImages s) (messages s)
          (captureAndReset (trim (input s)) (uploadedImages s) s)
    \<and> length (sent (handleSubmit s)) = length (sent s) + 1
    \<and> input (handleSubmit s) = [] \<and> uploadedImages (handleSubmit s) = []
    \<and> last (messages (handleSubmit s)) =
          \<lparr> role = User, content = trim (input s), images = Some (uploadedImages s) \<rparr>
    \<and> (\<forall>evs s'. run evs (handleSubmit s) = Some s' \<and> isLoading s'
          \<longrightarrow> uploadedImages s' = []
            \<and> (\<forall>outcome. uploadedImages (respond outcome s') = []))
    \<and> (\<forall>evs s' ok j msg. run evs (handleSubmit s) = Some s' \<and> isLoading s'
          \<longrightarrow> uploadedImages (fetchResolved ok s') = []
            \<and> uploadedImages (bodyParsed j s') = []
            \<and> uploadedImages (fetchRejected msg s') = [])"
proof -
  note h = handleSubmit_fields [OF assms]
  have inv: "turnInv (handleSubmit s)"
    using assms by (simp add: turnInv_def handleSubmit_def sendRequest_def captureAndReset_def)
  have later: "uploadedImages s' = [] \<and> (\<forall>outcome. uploadedImages (respond outcome s') = [])"
    if r: "run evs (handleSubmit s) = Some s'" and l: "isLoading s'" for evs s'
  proof -
    from run_turnInv [OF inv r] l
    have e: "uploadedImages s' = []" and "inflight s' \<noteq> None"
      by (simp_all add: turnInv_def)
    then obtain imgs where i: "inflight s' = Some imgs" by blast
    have "uploadedImages (respond outcome s') = []" for outcome
      by (cases outcome)
        (simp_all add: respond_Ok_fields [OF i] respond_NotOk_fields [OF i]
          respond_Rejected_fields [OF i] e)
    with e show ?thesis by blast
  qed
  have steps: "uploadedImages (fetchResolved ok s') = []
      \<and> uploadedImages (bodyParsed j s') = [] \<and> uploadedImages (fetchRejected msg s') = []"
    if r: "run evs (handleSubmit s) = Some s'" and l: "isLoading s'" for evs s' ok j msg
    using later [OF r l] by (simp add: uploadedImages_response_steps)
  have first: "input (captureAndReset (trim (input s)) (uploadedImages s) s) = []"
      "uploadedImages (captureAndReset (trim (input s)) (uploadedImages s) s) = []"
      "sent (captureAndReset (trim (input s)) (uploadedImages s) s) = sent s"
    by (simp_all add: captureAndReset_def)
  have lastmsg: "last (messages (handleSubmit s)) =
      \<lparr> role = User, content = trim (input s), images = Some (uploadedImages s) \<rparr>"
    by (simp add: h userMessageForDisplay_def)
  have len: "length (sent (handleSubmit s)) = length (sent s) + 1"
    by (simp add: h)
  from first handleSubmit_accepted [OF assms] len h(1,2) lastmsg later steps
  show ?thesis by blast
qed

theorem submit_clears_staging_witness:
  "\<not> submitBlocked stagedState
   \<and> uploadedImages stagedState = [redCar]
   \<and> uploadedImages (handleSubmit stagedState) = []
   \<and> input (handleSubmit stagedState) = []
   \<and> run [Tick, RemoveImage 0] (handleSubmit stagedState) = None
   \<and> run [Tick, Tick] (handleSubmit stagedState) = Some (tick (tick (handleSubmit stagedState)))
   \<and> uploadedImages (tick (tick (handleSubmit stagedState))) = []
   \<and> uploadedImages (respond (Rejected ''Failed to fetch'') (tick (tick (handleSubmit stagedState)))) = []
   \<and> run [Tick, FetchResolved True] (handleSubmit stagedState) =
       Some (fetchResolved True (tick (handleSubmit stagedState)))
   \<and> isLoading (fetchResolved True (tick (handleSubmit stagedState)))
   \<and> uploadedImages (bodyParsed (JsonRejected ''Unexpected token'')
         (fetchResolved True (tick (handleSubmit stagedState)))) = []"
proof -
  note t = submit_clears_staging [OF stagedState_accepted]
  note h = handleSubmit_fields [OF stagedState_accepted]
  have u: "uploadedImages stagedState = [redCar]"
    by (simp add: stagedState_def)
  have iv: "progressIntervals (handleSubmit stagedState) > 0"
    using stagedState_accepted by (simp add: handleSubmit_def sendRequest_def captureAndReset_def)
  then have r: "run [Tick, Tick] (handleSubmit stagedState) = Some (tick (tick (handleSubmit stagedState)))"
    by (simp add: tick_def)
  have n: "run [Tick, RemoveImage 0] (handleSubmit stagedState) = None"
    using iv by (simp add: tick_def h)
  have l: "isLoading (tick (tick (handleSubmit stagedState)))"
    by (simp add: tick_def h)
  from t r l have
    "uploadedImages (tick (tick (handleSubmit stagedState))) = []
     \<and> (\<forall>outcome. uploadedImages (respond outcome (tick (tick (handleSubmit stagedState)))) = [])"
    by blast
  then have old: "uploadedImages (tick (tick (handleSubmit stagedState))) = []"
      "uploadedImages (respond (Rejected ''Failed to fetch'') (tick (tick (handleSubmit stagedState)))) = []"
    by blast+
  have r3: "run [Tick, FetchResolved True] (handleSubmit stagedState) =
       Some (fetchResolved True (tick (handleSubmit stagedState)))"
    using iv by (simp add: tick_def h(7,9))
  have l3: "isLoading (fetchResolved True (tick (handleSubmit stagedState)))"
    by (simp add: fetchResolved_def tick_def h split: option.splits)
  from t r3 l3 have new: "uploadedImages (bodyParsed (JsonRejected ''Unexpected token'')
         (fetchResolved True (tick (handleSubmit stagedState)))) = []"
    by blast
  from stagedState_accepted u h(1,2) n r old r3 l3 new show ?thesis by blast
qed

subsection \<open>Validation of an upload\<close>

text \<open>
  C5. For a file larger than 10 MiB or whose type does not start with \<^verbatim>\<open>image/\<close>, the upload
  handler changes nothing but the error message, which it sets: no request is sent, no
  upload is left suspended (so none is sent later), and the staging area is as it was. A
  file of an image type of at most 10 MiB passes: it is appended to the staging area as
  uploading and its upload is suspended at the file reader.
\<close>

theorem invalid_file_rejected:
  "(file_size f > 10 * 1024 * 1024 \<or> \<not> startsWith (file_type f) ''image/'' \<longrightarrow>
      sent (handleImageUpload f rnd s) = sent s
      \<and> uploads (handleImageUpload f rnd s) = uploads s
      \<and> uploadIntervals (handleImageUpload f rnd s) = uploadIntervals s
      \<and> uploadedImages (handleImageUpload f rnd s) = uploadedImages s
      \<and> handleImageUpload f rnd s = s \<lparr> error := error (handleImageUpload f rnd s) \<rparr>
      \<and> (error (handleImageUpload f rnd s) = Some ''Please upload a valid image file''
           \<or> error (handleImageUpload f rnd s) = Some ''Image size must be less than 10MB''))
   \<and> (startsWith (file_type f) ''image/'' \<and> file_size f \<le> 10 * 1024 * 1024 \<longrightarrow>
      length (uploadedImages (handleImageUpload f rnd s)) = length (uploadedImages s) + 1
      \<and> isUploading (last (uploadedImages (handleImageUpload f rnd s))) = Some True
      \<and> uploads (handleImageUpload f rnd s) = uploads s @
           [\<lparr> up_imageId = drop 7 rnd, up_prompt = trim (input s), up_phase = Converting \<rparr>]
      \<and> error (handleImageUpload f rnd s) = error s
      \<and> sent (handleImageUpload f rnd s) = sent s)"
  by (auto simp: handleImageUpload_def Let_def updateImage_def mergeImage_def noUpdates_def
      initialImageData_def)

theorem invalid_file_rejected_witness:
  "file_size hugeFile > 10 * 1024 * 1024
   \<and> handleImageUpload hugeFile ''0.i'' initial =
       initial \<lparr> error := Some ''Image size must be less than 10MB'' \<rparr>
   \<and> startsWith (file_type pngFile) ''image/'' \<and> file_size pngFile \<le> 10 * 1024 * 1024
   \<and> length (uploadedImages (handleImageUpload pngFile ''0.i'' initial)) = 1"
proof -
  note t = invalid_file_rejected [of hugeFile "''0.i''" initial]
  note v = invalid_file_rejected [of pngFile "''0.i''" initial]
  have big: "file_size hugeFile > 10 * 1024 * 1024"
    by (simp add: hugeFile_def)
  have ok: "startsWith (file_type pngFile) ''image/'' \<and> file_size pngFile \<le> 10 * 1024 * 1024"
    by (simp add: pngFile_def startsWith_def)
  have ty: "startsWith (file_type hugeFile) ''image/''"
    by (simp add: hugeFile_def startsWith_def)
  from t big have "handleImageUpload hugeFile ''0.i'' initial =
      initial \<lparr> error := error (handleImageUpload hugeFile ''0.i'' initial) \<rparr>"
    by blast
  moreover have "error (handleImageUpload hugeFile ''0.i'' initial) = Some ''Image size must be less than 10MB''"
    using big ty by (simp add: handleImageUpload_def)
  ultimately have 1: "handleImageUpload hugeFile ''0.i'' initial =
       initial \<lparr> error := Some ''Image size must be less than 10MB'' \<rparr>"
    by simp
  from v ok have 2: "length (uploadedImages (handleImageUpload pngFile ''0.i'' initial)) = 1"
    by (simp add: initial_def)
  from big 1 ok 2 show ?thesis by blast
qed

subsection \<open>Attachment ids\<close>

lemma img_id_mergeImage [simp]: "img_id (mergeImage img u) = img_id img"
  by (simp add: mergeImage_def)

lemma map_img_id_updateImage [simp]: "map img_id (updateImage i u imgs) = map img_id imgs"
  by (simp add: updateImage_def)

lemma twoUploads_runs:
  shows "run twoUploads initial = Some (the (run twoUploads initial))"
    and "map img_id (uploadedImages (the (run twoUploads initial))) = [Some [], Some []]"
    and "map url (uploadedImages (the (run twoUploads initial))) =
          [''data:image/png;base64,AAAA'', ''data:image/png;base64,AAAA'']"
    and "map up_phase (uploads (the (run twoUploads initial))) = [Analyzing, Converting]"
  by (simp_all add: twoUploads_def initial_def pngFile_def step_defs trim_def)

text \<open>
  C8, as stated, fails: the id is what remains of the random string after its first seven
  characters, and nothing compares it with the ids in use. After two uploads with the
  strings of two different draws both attachments have the same (empty) id, and the update
  made when the first file has been read changes the second attachment as well, whose
  upload is still at its file reader.
\<close>

theorem attachment_ids_collide:
  "reachable (the (run twoUploads initial))
   \<and> ''0.i'' \<noteq> ''0.9''
   \<and> map img_id (uploadedImages (the (run twoUploads initial))) = [Some [], Some []]
   \<and> \<not> distinct (map img_id (uploadedImages (the (run twoUploads initial))))
   \<and> map up_phase (uploads (the (run twoUploads initial))) = [Analyzing, Converting]
   \<and> map url (uploadedImages (the (run twoUploads initial))) =
        [''data:image/png;base64,AAAA'', ''data:image/png;base64,AAAA'']"
proof -
  have "reachable (the (run twoUploads initial))"
    using run_reachable [OF reachable_initial twoUploads_runs(1)] .
  moreover have "\<not> distinct (map img_id (uploadedImages (the (run twoUploads initial))))"
    by (simp add: twoUploads_runs(2))
  ultimately show ?thesis
    using twoUploads_runs(2,3,4) by simp
qed

text \<open>
  C8, amended. The id of a new attachment is the random string without its first seven
  characters. An update by id changes exactly the attachments that carry that id, and
  changes no id. When the ids of the staged attachments are pairwise distinct it changes exactly the
  one attachment with that id; and the ids stay pairwise distinct when the id of a new
  attachment is not among those staged.
\<close>

theorem update_by_id_targets:
  "length (updateImage i u imgs) = length imgs
   \<and> map img_id (updateImage i u imgs) = map img_id imgs
   \<and> (\<forall>k < length imgs. updateImage i u imgs ! k =
        (if img_id (imgs ! k) = Some i then mergeImage (imgs ! k) u else imgs ! k))
   \<and> (distinct (map img_id imgs) \<and> k < length imgs \<and> img_id (imgs ! k) = Some i
        \<longrightarrow> updateImage i u imgs = imgs [k := mergeImage (imgs ! k) u])
   \<and> (validFile f \<longrightarrow>
        map img_id (uploadedImages (handleImageUpload f rnd s)) =
          map img_id (uploadedImages s) @ [Some (drop 7 rnd)])
   \<and> (validFile f \<and> distinct (map img_id (uploadedImages s))
        \<and> Some (drop 7 rnd) \<notin> set (map img_id (uploadedImages s))
        \<longrightarrow> distinct (map img_id (uploadedImages (handleImageUpload f rnd s))))"
proof -
  have nth: "\<forall>k < length imgs. updateImage i u imgs ! k =
        (if img_id (imgs ! k) = Some i then mergeImage (imgs ! k) u else imgs ! k)"
    by (simp add: updateImage_def)
  have one: "updateImage i u imgs = imgs [k := mergeImage (imgs ! k) u]"
    if d: "distinct (map img_id imgs)" and k: "k < length imgs" and e: "img_id (imgs ! k) = Some i"
  proof (rule nth_equalityI)
    show "length (updateImage i u imgs) = length (imgs [k := mergeImage (imgs ! k) u])"
      by (simp add: updateImage_def)
    fix j assume "j < length (updateImage i u imgs)"
    then have j: "j < length imgs" by (simp add: updateImage_def)
    show "updateImage i u imgs ! j = imgs [k := mergeImage (imgs ! k) u] ! j"
    proof (cases "j = k")
      case True
      then show ?thesis using k e by (simp add: updateImage_def)
    next
      case False
      have "img_id (imgs ! j) \<noteq> img_id (imgs ! k)"
      proof
        assume "img_id (imgs ! j) = img_id (imgs ! k)"
        then have "map img_id imgs ! j = map img_id imgs ! k" using j k by simp
        moreover have "j < length (map img_id imgs)" "k < length (map img_id imgs)"
          using j k by simp_all
        ultimately have "j = k" using d nth_eq_iff_index_eq by blast
        with False show False by simp
      qed
      then show ?thesis using False j e by (simp add: updateImage_def)
    qed
  qed
  have ids: "map img_id (uploadedImages (handleImageUpload f rnd s)) =
      map img_id (uploadedImages s) @ [Some (drop 7 rnd)]" if "validFile f"
    using that by (simp add: validFile_def handleImageUpload_def Let_def initialImageData_def)
  have dist: "distinct (map img_id (uploadedImages (handleImageUpload f rnd s)))"
    if "validFile f" and "distinct (map img_id (uploadedImages s))"
      and "Some (drop 7 rnd) \<notin> set (map img_id (uploadedImages s))"
    using that by (simp add: ids)
  from nth one ids dist show ?thesis
    by (simp add: updateImage_def)
qed

theorem update_by_id_targets_witness:
  "validFile pngFile
   \<and> distinct (map img_id [redCar, blueCar]) \<and> (1::nat) < length [redCar, blueCar]
   \<and> img_id ([redCar, blueCar] ! 1) = Some ''k3x9ab''
   \<and> updateImage ''k3x9ab'' (noUpdates \<lparr> u_progress := Some None \<rparr>) [redCar, blueCar]
       = [redCar, mergeImage blueCar (noUpdates \<lparr> u_progress := Some None \<rparr>)]
   \<and> mergeImage blueCar (noUpdates \<lparr> u_progress := Some None \<rparr>) \<noteq> blueCar
   \<and> distinct (map img_id (uploadedImages stagedState))
   \<and> Some (drop 7 ''0.7c1d2k3x9ab'') \<notin> set (map img_id (uploadedImages stagedState))
   \<and> map img_id (uploadedImages (handleImageUpload pngFile ''0.7c1d2k3x9ab'' stagedState))
       = [Some ''82mvyr'', Some ''k3x9ab'']
   \<and> distinct (map img_id (uploadedImages (handleImageUpload pngFile ''0.7c1d2k3x9ab'' stagedState)))"
proof -
  note t = update_by_id_targets [of "''k3x9ab''" "noUpdates \<lparr> u_progress := Some None \<rparr>"
      "[redCar, blueCar]" 1 pngFile "''0.7c1d2k3x9ab''" stagedState]
  have v: "validFile pngFile"
    by (simp add: validFile_def pngFile_def startsWith_def)
  have h: "distinct (map img_id [redCar, blueCar]) \<and> (1::nat) < length [redCar, blueCar]
      \<and> img_id ([redCar, blueCar] ! 1) = Some ''k3x9ab''"
    by (simp add: redCar_def blueCar_def)
  have e: "map img_id (uploadedImages stagedState) = [Some ''82mvyr'']"
    by (simp add: stagedState_def redCar_def)
  then have d: "distinct (map img_id (uploadedImages stagedState))
      \<and> Some (drop 7 ''0.7c1d2k3x9ab'') \<notin> set (map img_id (uploadedImages stagedState))"
    by simp
  from t h have "updateImage ''k3x9ab'' (noUpdates \<lparr> u_progress := Some None \<rparr>) [redCar, blueCar]
       = [redCar, blueCar] [1 := mergeImage ([redCar, blueCar] ! 1) (noUpdates \<lparr> u_progress := Some None \<rparr>)]"
    by blast
  then have 1: "updateImage ''k3x9ab'' (noUpdates \<lparr> u_progress := Some None \<rparr>) [redCar, blueCar]
       = [redCar, mergeImage blueCar (noUpdates \<lparr> u_progress := Some None \<rparr>)]"
    by simp
  have 2: "mergeImage blueCar (noUpdates \<lparr> u_progress := Some None \<rparr>) \<noteq> blueCar"
    by (simp add: mergeImage_def noUpdates_def blueCar_def)
  from t v have "map img_id (uploadedImages (handleImageUpload pngFile ''0.7c1d2k3x9ab'' stagedState))
      = map img_id (uploadedImages stagedState) @ [Some (drop 7 ''0.7c1d2k3x9ab'')]"
    by blast
  then have 3: "map img_id (uploadedImages (handleImageUpload pngFile ''0.7c1d2k3x9ab'' stagedState))
      = [Some ''82mvyr'', Some ''k3x9ab'']"
    by (simp add: e)
  from t v d have 4: "distinct (map img_id (uploadedImages (handleImageUpload pngFile ''0.7c1d2k3x9ab'' stagedState)))"
    by blast
  from v h 1 2 d 3 4 show ?thesis by blast
qed

subsection \<open>The math-notation normalizer\<close>

text \<open>Every match of the seven expressions consumes at least one character, so the length
  test in \<open>replace_matches\<close> never fails and each match is replaced.\<close>

lemma paren_body_shorter: "paren_body cs = Some (x, r) \<Longrightarrow> length r < length cs"
proof (induction cs arbitrary: x r)
  case Nil
  then show ?case by simp
next
  case (Cons c cs)
  show ?case
  proof (cases "c = backslash \<and> take 1 cs = '')''")
    case True
    with Cons.prems show ?thesis by auto
  next
    case False
    with Cons.prems obtain x' where "paren_body cs = Some (x', r)"
      by (auto split: if_splits)
    from Cons.IH [OF this] show ?thesis by simp
  qed
qed

lemma bracket_body_shorter: "bracket_body cs = Some (x, r) \<Longrightarrow> length r < length cs"
proof (induction cs arbitrary: x r)
  case Nil
  then show ?case by simp
next
  case (Cons c cs)
  show ?case
  proof (cases "c = backslash \<and> take 1 cs = '']''")
    case True
    with Cons.prems show ?thesis by auto
  next
    case False
    with Cons.prems obtain x' where "bracket_body cs = Some (x', r)"
      by (auto split: if_splits)
    from Cons.IH [OF this] show ?thesis by simp
  qed
qed

lemma dropWhile_Cons_shorter: "dropWhile P cs = d # r \<Longrightarrow> length r < length cs"
proof -
  assume a: "dropWhile P cs = d # r"
  have "length (dropWhile P cs) \<le> length cs" by (rule length_dropWhile_le)
  with a show ?thesis by simp
qed

lemma lazy_close_shorter: "lazy_close cs = Some (x, r) \<Longrightarrow> length r < length cs"
proof (induction cs arbitrary: x r)
  case Nil
  then show ?case by simp
next
  case (Cons c cs)
  show ?case
  proof (cases "\<exists>r'. dropWhile is_space (c # cs) = CHR '']'' # r'")
    case True
    then obtain r' where d: "dropWhile is_space (c # cs) = CHR '']'' # r'" by blast
    with Cons.prems have "r = r'" by simp
    with dropWhile_Cons_shorter [OF d] show ?thesis by simp
  next
    case False
    with Cons.prems obtain x' where "lazy_close cs = Some (x', r)"
      by (cases "dropWhile is_space (c # cs)") (auto split: if_splits)
    from Cons.IH [OF this] show ?thesis by simp
  qed
qed

lemma matches_consume:
  shows "escapedParen t = Some (out, r) \<Longrightarrow> length r < length t"
    and "escapedBracket t = Some (out, r) \<Longrightarrow> length r < length t"
    and "bareBracket t = Some (out, r) \<Longrightarrow> length r < length t"
    and "pat \<noteq> [] \<Longrightarrow> literal pat rep t = Some (out, r) \<Longrightarrow> length r < length t"
    and "phiSpaces t = Some (out, r) \<Longrightarrow> length r < length t"
    and "fracSpaces t = Some (out, r) \<Longrightarrow> length r < length t"
proof -
  show "length r < length t" if "escapedParen t = Some (out, r)"
  proof -
    from that obtain x where "paren_body (drop 2 t) = Some (x, r)"
      by (auto simp: escapedParen_def split: if_splits)
    from paren_body_shorter [OF this] show ?thesis by simp
  qed
  show "length r < length t" if "escapedBracket t = Some (out, r)"
  proof -
    from that obtain x where "bracket_body (drop 2 t) = Some (x, r)"
      by (auto simp: escapedBracket_def split: if_splits)
    from bracket_body_shorter [OF this] show ?thesis by simp
  qed
  show "length r < length t" if "bareBracket t = Some (out, r)"
  proof -
    from that obtain d ds x where d: "dropWhile is_space (drop 1 t) = d # ds"
      and l: "lazy_close (dropWhile is_letter ds) = Some (x, r)"
      by (auto simp: bareBracket_def bare_bracket_def split: if_splits list.splits)
    have "length r < length (dropWhile is_letter ds)" by (rule lazy_close_shorter [OF l])
    also have "\<dots> \<le> length ds" by (rule length_dropWhile_le)
    also have "\<dots> < length (drop 1 t)" by (rule dropWhile_Cons_shorter [OF d])
    finally show ?thesis by simp
  qed
  show "length r < length t" if "pat \<noteq> []" and "literal pat rep t = Some (out, r)"
  proof -
    from that(2) have r: "r = drop (length pat) t" and p: "take (length pat) t = pat"
      by (auto simp: literal_def split: if_splits)
    from p that(1) have "t \<noteq> []" by auto
    with r that(1) show ?thesis by simp
  qed
  show "length r < length t" if "phiSpaces t = Some (out, r)"
  proof -
    from that have r: "r = dropWhile is_space (drop 4 t)" and p: "take 4 t = backslash # ''phi''"
      by (auto simp: phiSpaces_def split: if_splits)
    from p have "t \<noteq> []" by auto
    moreover have "length r \<le> length (drop 4 t)" unfolding r by (rule length_dropWhile_le)
    ultimately show ?thesis by (cases t) auto
  qed
  show "length r < length t" if "fracSpaces t = Some (out, r)"
  proof -
    from that have r: "r = drop 1 (dropWhile is_space (drop 5 t))"
      and p: "take 5 t = backslash # ''frac''"
      by (auto simp: fracSpaces_def split: if_splits)
    from p have "t \<noteq> []" by auto
    moreover have "length (dropWhile is_space (drop 5 t)) \<le> length (drop 5 t)"
      by (rule length_dropWhile_le)
    then have "length r \<le> length (drop 5 t)" unfolding r by simp
    ultimately show ?thesis by (cases t) auto
  qed
qed

lemmas matcher_defs = escapedParen_def escapedBracket_def bareBracket_def bare_bracket_def
  literal_def phiSpaces_def fracSpaces_def backslash_def is_line_terminator_def is_space_def
  is_letter_def

lemma phiLine_values:
  shows "delimiterRewrites phiLine = phiLine"
    and "formatMathContent phiLine = [backslash] @ ''('' @ [backslash] @ ''phi '' @ [backslash] @ '')''"
    and "formatMathContent (formatMathContent phiLine) = ''$'' @ [backslash] @ ''phi $''"
  by (simp_all add: phiLine_def formatMathContent_def delimiterRewrites_def typoPatches_def
      matcher_defs)

lemma nestedParens_values:
  shows "delimiterRewrites nestedParens =
      ''$'' @ [backslash] @ ''('' @ [backslash] @ ''(a$b'' @ [backslash] @ '')c'' @ [backslash] @ '')''"
    and "formatMathContent (delimiterRewrites nestedParens) =
      ''$$'' @ [backslash] @ ''(a$b$c'' @ [backslash] @ '')''"
    and "formatMathContent (formatMathContent (delimiterRewrites nestedParens)) = ''$$$a$b$c$''"
  by (simp_all add: nestedParens_def formatMathContent_def delimiterRewrites_def typoPatches_def
      matcher_defs)

text \<open>
  C6, as stated, fails in both readings. \<open>phiLine\<close> is a fixed point of the delimiter rewrites
  (the line feed keeps \<^verbatim>\<open>.*?\<close> from matching), but the typo patch for \<^verbatim>\<open>\phi\<close> replaces the line
  feed by a space, and the second run then rewrites the delimiters. The output of the
  delimiter rewrites on \<open>nestedParens\<close> still holds delimiters, and each further run
  rewrites one more pair.
\<close>

theorem normalizer_not_idempotent:
  "delimiterRewrites phiLine = phiLine
   \<and> formatMathContent (formatMathContent phiLine) \<noteq> formatMathContent phiLine
   \<and> formatMathContent (formatMathContent (delimiterRewrites nestedParens))
       \<noteq> formatMathContent (delimiterRewrites nestedParens)"
proof -
  have 1: "formatMathContent (formatMathContent phiLine) \<noteq> formatMathContent phiLine"
    by (subst phiLine_values(3), subst phiLine_values(2)) (simp add: backslash_def)
  have 2: "formatMathContent (formatMathContent (delimiterRewrites nestedParens))
       \<noteq> formatMathContent (delimiterRewrites nestedParens)"
    by (subst nestedParens_values(3), subst nestedParens_values(2)) (simp add: backslash_def)
  from phiLine_values(1) 1 2 show ?thesis by blast
qed

text \<open>A text without a backslash has no match of any of the seven expressions.\<close>

lemma replace_matches_none:
  assumes "\<And>t. backslash \<notin> set t \<Longrightarrow> m t = None" and "backslash \<notin> set t"
  shows "replace_matches m t = t"
  using assms(2)
proof (induction t)
  case Nil
  show ?case by simp
next
  case (Cons c cs)
  then have "m (c # cs) = None" using assms(1) by blast
  with Cons show ?case by simp
qed

lemma take_in_set: "take n t = p \<Longrightarrow> x \<in> set p \<Longrightarrow> x \<in> set t"
  using set_take_subset [of n t] by blast

lemma escapedParen_none: "backslash \<notin> set t \<Longrightarrow> escapedParen t = None"
  by (auto simp: escapedParen_def dest: take_in_set)

lemma escapedBracket_none: "backslash \<notin> set t \<Longrightarrow> escapedBracket t = None"
  by (auto simp: escapedBracket_def dest: take_in_set)

lemma bareBracket_none:
  assumes "backslash \<notin> set t"
  shows "bareBracket t = None"
proof -
  have "set (dropWhile is_space (drop 1 t)) \<subseteq> set t"
    using set_dropWhileD set_drop_subset by fastforce
  with assms have "backslash \<notin> set (dropWhile is_space (drop 1 t))" by blast
  then have "bare_bracket (drop 1 t) = None"
    by (auto simp: bare_bracket_def split: list.splits)
  then show ?thesis by (simp add: bareBracket_def)
qed

lemma literal_none: "backslash \<in> set pat \<Longrightarrow> backslash \<notin> set t \<Longrightarrow> literal pat rep t = None"
  by (auto simp: literal_def dest: take_in_set)

lemma phiSpaces_none: "backslash \<notin> set t \<Longrightarrow> phiSpaces t = None"
  by (auto simp: phiSpaces_def dest: take_in_set)

lemma fracSpaces_none: "backslash \<notin> set t \<Longrightarrow> fracSpaces t = None"
  by (auto simp: fracSpaces_def dest: take_in_set)

lemma no_backslash_fixed:
  assumes "backslash \<notin> set t"
  shows "delimiterRewrites t = t" and "typoPatches t = t"
  using assms
  by (simp_all add: delimiterRewrites_def typoPatches_def replace_matches_none
      escapedParen_none escapedBracket_none bareBracket_none literal_none phiSpaces_none
      fracSpaces_none)

subsection \<open>Idempotence of the typo patches\<close>

lemma replace_matches_skip:
  assumes "segmental m" and "backslash \<notin> set p"
  shows "replace_matches m (p @ t) = p @ replace_matches m t"
  using assms(2)
proof (induction p)
  case Nil
  show ?case by simp
next
  case (Cons c p)
  then have c: "c \<noteq> backslash" by auto
  have "m (c # p @ t) = None"
  proof (cases "m (c # p @ t)")
    case None
    then show ?thesis .
  next
    case (Some a)
    obtain out rest where "a = (out, rest)" by (cases a)
    with Some assms(1) have "\<exists>u. c # p @ t = backslash # u"
      unfolding segmental_def by blast
    with c show ?thesis by simp
  qed
  with Cons show ?case by simp
qed

lemma replace_matches_plain:
  assumes "segmental m" and "backslash \<notin> set p"
  shows "replace_matches m p = p"
  using replace_matches_skip [OF assms, of "[]"] by simp

lemma once_shape:
  assumes "segmental m" and "backslash \<notin> set s"
  shows "\<exists>s'. once m (backslash # s) = backslash # s' \<and> backslash \<notin> set s'"
proof (cases "m (backslash # s)")
  case None
  then show ?thesis using assms(2) by (simp add: once_def)
next
  case (Some a)
  obtain out rest where a: "a = (out, rest)" by (cases a)
  with Some assms have "backslash \<notin> set rest"
      and "\<exists>body. out = backslash # body \<and> backslash \<notin> set body"
    unfolding segmental_def by blast+
  then show ?thesis using Some a by (auto simp: once_def)
qed

lemma replace_matches_segment:
  assumes "segmental m" and "backslash \<notin> set s" and "startsSegment r"
  shows "replace_matches m (backslash # s @ r) = once m (backslash # s) @ replace_matches m r"
proof -
  from assms have loc: "m (backslash # s @ r) =
      map_option (\<lambda>(out, rest). (out, rest @ r)) (m (backslash # s))"
    unfolding segmental_def startsSegment_def by blast
  show ?thesis
  proof (cases "m (backslash # s)")
    case None
    with loc have "m (backslash # s @ r) = None" by simp
    then have "replace_matches m (backslash # s @ r) = backslash # replace_matches m (s @ r)"
      by simp
    also have "\<dots> = backslash # s @ replace_matches m r"
      by (simp add: replace_matches_skip [OF assms(1,2)])
    finally show ?thesis using None by (simp add: once_def)
  next
    case (Some a)
    obtain out rest where a: "a = (out, rest)" by (cases a)
    with Some assms(1,2) have nb: "backslash \<notin> set rest" and len: "length rest < Suc (length s)"
      unfolding segmental_def by blast+
    from loc Some a have "m (backslash # s @ r) = Some (out, rest @ r)" by simp
    then have "replace_matches m (backslash # s @ r) = out @ replace_matches m (rest @ r)"
      using len by simp
    also have "\<dots> = out @ rest @ replace_matches m r"
      by (simp add: replace_matches_skip [OF assms(1) nb])
    finally show ?thesis using Some a by (simp add: once_def)
  qed
qed

text \<open>Every text is a run without a backslash followed by nothing or by a segment.\<close>

lemma split_plain:
  obtains p r where "t = p @ r" and "backslash \<notin> set p" and "startsSegment r"
    and "length r \<le> length t"
proof
  show "t = takeWhile (\<lambda>c. c \<noteq> backslash) t @ dropWhile (\<lambda>c. c \<noteq> backslash) t" by simp
  show "backslash \<notin> set (takeWhile (\<lambda>c. c \<noteq> backslash) t)"
    using set_takeWhileD by fastforce
  show "startsSegment (dropWhile (\<lambda>c. c \<noteq> backslash) t)"
    unfolding startsSegment_def using hd_dropWhile [of "\<lambda>c. c \<noteq> backslash" t] by auto
  show "length (dropWhile (\<lambda>c. c \<noteq> backslash) t) \<le> length t"
    by (rule length_dropWhile_le)
qed

lemma split_segment:
  assumes "startsSegment r" and "r \<noteq> []"
  obtains s r' where "r = backslash # s @ r'" and "backslash \<notin> set s" and "startsSegment r'"
    and "length r' < length r"
proof -
  from assms obtain u where u: "r = backslash # u"
    unfolding startsSegment_def by (cases r) auto
  obtain s r' where "u = s @ r'" and "backslash \<notin> set s" and "startsSegment r'"
    and "length r' \<le> length u"
    by (rule split_plain)
  with u that show ?thesis by simp
qed

lemma replace_matches_startsSegment:
  assumes "segmental m" and "startsSegment r"
  shows "startsSegment (replace_matches m r)"
proof (cases "r = []")
  case True
  then show ?thesis by (simp add: startsSegment_def)
next
  case False
  from assms(2) False obtain s r' where r: "r = backslash # s @ r'"
    and s: "backslash \<notin> set s" and r': "startsSegment r'"
    by (rule split_segment)
  from once_shape [OF assms(1) s] obtain s' where o: "once m (backslash # s) = backslash # s'"
    by blast
  have "replace_matches m r = once m (backslash # s) @ replace_matches m r'"
    unfolding r by (rule replace_matches_segment [OF assms(1) s r'])
  with o show ?thesis by (simp add: startsSegment_def)
qed

text \<open>The four matchers of the typo patches are segmental.\<close>

lemma take_prefix_local:
  assumes "backslash \<notin> set pat" and "startsSegment r"
  shows "(take (length pat) (s @ r) = pat) = (take (length pat) s = pat)"
proof (cases "length pat \<le> length s")
  case True
  then show ?thesis by simp
next
  case False
  then have short: "length s < length pat" by simp
  have "take (length pat) s \<noteq> pat"
  proof
    assume "take (length pat) s = pat"
    then have "length (take (length pat) s) = length pat" by simp
    with short show False by simp
  qed
  moreover have "take (length pat) (s @ r) \<noteq> pat"
  proof (cases r)
    case Nil
    with \<open>take (length pat) s \<noteq> pat\<close> show ?thesis by simp
  next
    case (Cons c r')
    with assms(2) have c: "c = backslash" by (simp add: startsSegment_def)
    from short obtain k where k: "length pat - length s = Suc k"
      by (cases "length pat - length s") auto
    have in_take: "backslash \<in> set (take (length pat) (s @ r))"
      by (simp add: Cons c k)
    show ?thesis
    proof
      assume "take (length pat) (s @ r) = pat"
      with in_take have "backslash \<in> set pat" by (simp only:)
      with assms(1) show False by simp
    qed
  qed
  ultimately show ?thesis by simp
qed

lemma take_prefix_drop:
  assumes "take (length pat) s = pat"
  shows "drop (length pat) (s @ r) = drop (length pat) s @ r"
proof -
  from assms have "length (take (length pat) s) = length pat" by simp
  then have "length pat \<le> length s" by simp
  then show ?thesis by simp
qed

lemma takeWhile_local:
  assumes "startsSegment r"
  shows "takeWhile is_space (xs @ r) = takeWhile is_space xs"
    and "dropWhile is_space (xs @ r) = dropWhile is_space xs @ r"
proof -
  have nb: "\<not> is_space backslash" by (simp add: is_space_def backslash_def)
  from assms nb have t: "takeWhile is_space r = []" and d: "dropWhile is_space r = r"
    by (cases r; simp add: startsSegment_def)+
  show "takeWhile is_space (xs @ r) = takeWhile is_space xs"
    by (induction xs) (simp_all add: t)
  show "dropWhile is_space (xs @ r) = dropWhile is_space xs @ r"
    by (induction xs) (simp_all add: d)
qed

lemma segmental_literal:
  assumes "backslash \<notin> set pat" and "backslash \<notin> set rep"
  shows "segmental (literal (backslash # pat) (backslash # rep))"
  unfolding segmental_def
proof (intro conjI allI impI)
  fix t out rest
  assume "literal (backslash # pat) (backslash # rep) t = Some (out, rest)"
  then have "take (Suc (length pat)) t = backslash # pat"
    by (simp add: literal_def split: if_splits)
  then show "\<exists>u. t = backslash # u" by (cases t) auto
next
  fix s r
  assume "backslash \<notin> set s \<and> (r = [] \<or> hd r = backslash)"
  then have r: "startsSegment r" by (simp add: startsSegment_def)
  show "literal (backslash # pat) (backslash # rep) (backslash # s @ r) =
      map_option (\<lambda>(out, rest). (out, rest @ r))
        (literal (backslash # pat) (backslash # rep) (backslash # s))"
    using take_prefix_local [OF assms(1) r, of s] take_prefix_drop [of pat s r]
    by (auto simp: literal_def)
next
  fix s out rest
  assume a: "backslash \<notin> set s \<and> literal (backslash # pat) (backslash # rep) (backslash # s) = Some (out, rest)"
  then have o: "out = backslash # rep" and rest: "rest = drop (length pat) s"
    by (auto simp: literal_def split: if_splits)
  from a have "take (length pat) s = pat"
    by (auto simp: literal_def split: if_splits)
  have "set rest \<subseteq> set s" unfolding rest by (rule set_drop_subset)
  with a show "backslash \<notin> set rest" by blast
  show "length rest < Suc (length s)" unfolding rest by simp
  show "\<exists>body. out = backslash # body \<and> backslash \<notin> set body"
    using o assms(2) by simp
qed

lemma segmental_phiSpaces: "segmental phiSpaces"
  unfolding segmental_def
proof (intro conjI allI impI)
  fix t out rest
  assume "phiSpaces t = Some (out, rest)"
  then have "take 4 t = backslash # ''phi''"
    by (simp add: phiSpaces_def split: if_splits)
  then show "\<exists>u. t = backslash # u" by (cases t) auto
next
  fix s r
  assume "backslash \<notin> set s \<and> (r = [] \<or> hd r = backslash)"
  then have r: "startsSegment r" by (simp add: startsSegment_def)
  have nb: "backslash \<notin> set ''phi''" by (simp add: backslash_def)
  have l: "length ''phi'' = 3" by simp
  note p = take_prefix_local [OF nb r, of s, unfolded l]
    take_prefix_drop [of "''phi''" s r, unfolded l]
  show "phiSpaces (backslash # s @ r) =
      map_option (\<lambda>(out, rest). (out, rest @ r)) (phiSpaces (backslash # s))"
  proof (cases "take 3 s = ''phi''")
    case True
    from p(1) True have e1: "take 3 (s @ r) = ''phi''" by blast
    from p(2) True have e2: "drop 3 (s @ r) = drop 3 s @ r" by blast
    show ?thesis
      by (simp add: phiSpaces_def takeWhile_local [OF r] e1 e2 True
          del: take_append drop_append)
  next
    case False
    with p(1) have "take 3 (s @ r) \<noteq> ''phi''" by blast
    with False show ?thesis by (simp add: phiSpaces_def del: take_append drop_append)
  qed
next
  fix s out rest
  assume a: "backslash \<notin> set s \<and> phiSpaces (backslash # s) = Some (out, rest)"
  then have o: "out = backslash # ''phi ''" and rest: "rest = dropWhile is_space (drop 3 s)"
    by (auto simp: phiSpaces_def split: if_splits)
  have "set rest \<subseteq> set s"
    unfolding rest using set_dropWhileD set_drop_subset by fastforce
  with a show "backslash \<notin> set rest" by blast
  have "length rest \<le> length (drop 3 s)" unfolding rest by (rule length_dropWhile_le)
  then show "length rest < Suc (length s)" by simp
  show "\<exists>body. out = backslash # body \<and> backslash \<notin> set body"
    using o by (simp add: backslash_def)
qed

lemma segmental_fracSpaces: "segmental fracSpaces"
  unfolding segmental_def
proof (intro conjI allI impI)
  fix t out rest
  assume "fracSpaces t = Some (out, rest)"
  then have "take 5 t = backslash # ''frac''"
    by (simp add: fracSpaces_def split: if_splits)
  then show "\<exists>u. t = backslash # u" by (cases t) auto
next
  fix s r
  assume "backslash \<notin> set s \<and> (r = [] \<or> hd r = backslash)"
  then have r: "startsSegment r" by (simp add: startsSegment_def)
  have nb: "backslash \<notin> set ''frac''" by (simp add: backslash_def)
  have l: "length ''frac'' = 4" by simp
  note p = take_prefix_local [OF nb r, of s, unfolded l]
    take_prefix_drop [of "''frac''" s r, unfolded l]
  have t1: "take 1 r \<noteq> ''{''"
    using r by (cases r) (auto simp: startsSegment_def backslash_def)
  show "fracSpaces (backslash # s @ r) =
      map_option (\<lambda>(out, rest). (out, rest @ r)) (fracSpaces (backslash # s))"
  proof (cases "take 4 s = ''frac''")
    case True
    from p(1) True have e1: "take 4 (s @ r) = ''frac''" by blast
    from p(2) True have e2: "drop 4 (s @ r) = drop 4 s @ r" by blast
    define w where "w = dropWhile is_space (drop 4 s)"
    define k where "k = takeWhile is_space (drop 4 s)"
    have long: "fracSpaces (backslash # s @ r) =
        (if k \<noteq> [] \<and> take 1 (w @ r) = ''{''
         then Some (backslash # ''frac{'', drop 1 (w @ r)) else None)"
      by (simp add: fracSpaces_def takeWhile_local [OF r] e1 e2 w_def k_def
          del: take_append drop_append)
    have short: "fracSpaces (backslash # s) =
        (if k \<noteq> [] \<and> take 1 w = ''{''
         then Some (backslash # ''frac{'', drop 1 w) else None)"
      by (simp add: fracSpaces_def True w_def k_def)
    show ?thesis
    proof (cases w)
      case Nil
      with t1 show ?thesis unfolding long short by simp
    next
      case (Cons d ds)
      then show ?thesis unfolding long short by simp
    qed
  next
    case False
    with p(1) have "take 4 (s @ r) \<noteq> ''frac''" by blast
    with False show ?thesis by (simp add: fracSpaces_def del: take_append drop_append)
  qed
next
  fix s out rest
  assume a: "backslash \<notin> set s \<and> fracSpaces (backslash # s) = Some (out, rest)"
  then have o: "out = backslash # ''frac{''"
    and rest: "rest = drop 1 (dropWhile is_space (drop 4 s))"
    by (auto simp: fracSpaces_def split: if_splits)
  have "set rest \<subseteq> set (dropWhile is_space (drop 4 s))"
    unfolding rest by (rule set_drop_subset)
  also have "\<dots> \<subseteq> set s"
    using set_dropWhileD set_drop_subset by fastforce
  finally have "set rest \<subseteq> set s" .
  with a show "backslash \<notin> set rest" by blast
  have "length rest \<le> length (dropWhile is_space (drop 4 s))" unfolding rest by simp
  also have "\<dots> \<le> length (drop 4 s)" by (rule length_dropWhile_le)
  finally show "length rest < Suc (length s)" by simp
  show "\<exists>body. out = backslash # body \<and> backslash \<notin> set body"
    using o by (simp add: backslash_def)
qed

lemma segmental_partial: "segmental (literal (backslash # ''partia l'') (backslash # ''partial''))"
  by (rule segmental_literal) (simp_all add: backslash_def)

lemma segmental_delta: "segmental (literal (backslash # ''delt a'') (backslash # ''delta''))"
  by (rule segmental_literal) (simp_all add: backslash_def)

text \<open>One round of the four patches at the start of a text, by the way the text starts.\<close>

lemma is_space_examples: "is_space CHR '' ''" "\<not> is_space CHR ''{''"
  by (simp_all add: is_space_def)

lemma patchOnce_partial:
  "patchOnce (backslash # CHR ''p'' # CHR ''a'' # CHR ''r'' # CHR ''t'' # CHR ''i'' # CHR ''a''
      # CHR '' '' # CHR ''l'' # v) = backslash # ''partial'' @ v"
  "patchOnce (backslash # CHR ''p'' # CHR ''a'' # CHR ''r'' # CHR ''t'' # CHR ''i'' # CHR ''a''
      # CHR ''l'' # v) = backslash # ''partial'' @ v"
proof -
  let ?u = "backslash # CHR ''p'' # CHR ''a'' # CHR ''r'' # CHR ''t'' # CHR ''i'' # CHR ''a''
      # CHR '' '' # CHR ''l'' # v"
  let ?w = "backslash # CHR ''p'' # CHR ''a'' # CHR ''r'' # CHR ''t'' # CHR ''i'' # CHR ''a''
      # CHR ''l'' # v"
  have 1: "once (literal (backslash # ''partia l'') (backslash # ''partial'')) ?u = ?w"
      "once (literal (backslash # ''partia l'') (backslash # ''partial'')) ?w = ?w"
    by (simp_all add: once_def literal_def)
  have 2: "once (literal (backslash # ''delt a'') (backslash # ''delta'')) ?w = ?w"
    by (simp add: once_def literal_def)
  have 3: "once phiSpaces ?w = ?w"
    by (simp add: once_def phiSpaces_def)
  have 4: "once fracSpaces ?w = ?w"
    by (simp add: once_def fracSpaces_def)
  show "patchOnce ?u = backslash # ''partial'' @ v"
    unfolding patchOnce_def 1 2 3 4 by simp
  show "patchOnce ?w = backslash # ''partial'' @ v"
    unfolding patchOnce_def 1 2 3 4 by simp
qed

lemma patchOnce_delta:
  "patchOnce (backslash # CHR ''d'' # CHR ''e'' # CHR ''l'' # CHR ''t'' # CHR '' '' # CHR ''a'' # v)
     = backslash # ''delta'' @ v"
  "patchOnce (backslash # CHR ''d'' # CHR ''e'' # CHR ''l'' # CHR ''t'' # CHR ''a'' # v)
     = backslash # ''delta'' @ v"
proof -
  let ?u = "backslash # CHR ''d'' # CHR ''e'' # CHR ''l'' # CHR ''t'' # CHR '' '' # CHR ''a'' # v"
  let ?w = "backslash # CHR ''d'' # CHR ''e'' # CHR ''l'' # CHR ''t'' # CHR ''a'' # v"
  have 1: "once (literal (backslash # ''partia l'') (backslash # ''partial'')) ?u = ?u"
      "once (literal (backslash # ''partia l'') (backslash # ''partial'')) ?w = ?w"
    by (simp_all add: once_def literal_def)
  have 2: "once (literal (backslash # ''delt a'') (backslash # ''delta'')) ?u = ?w"
      "once (literal (backslash # ''delt a'') (backslash # ''delta'')) ?w = ?w"
    by (simp_all add: once_def literal_def)
  have 3: "once phiSpaces ?w = ?w"
    by (simp add: once_def phiSpaces_def)
  have 4: "once fracSpaces ?w = ?w"
    by (simp add: once_def fracSpaces_def)
  show "patchOnce ?u = backslash # ''delta'' @ v"
    unfolding patchOnce_def 1 2 3 4 by simp
  show "patchOnce ?w = backslash # ''delta'' @ v"
    unfolding patchOnce_def 1 2 3 4 by simp
qed

lemma patchOnce_phi:
  "patchOnce (backslash # CHR ''p'' # CHR ''h'' # CHR ''i'' # v) =
     (if takeWhile is_space v = [] then backslash # ''phi'' @ v
      else backslash # ''phi '' @ dropWhile is_space v)"
proof -
  let ?u = "backslash # CHR ''p'' # CHR ''h'' # CHR ''i'' # v"
  have 1: "once (literal (backslash # ''partia l'') (backslash # ''partial'')) ?u = ?u"
    by (simp add: once_def literal_def)
  have 2: "once (literal (backslash # ''delt a'') (backslash # ''delta'')) ?u = ?u"
    by (simp add: once_def literal_def)
  have 3: "once phiSpaces ?u =
      (if takeWhile is_space v = [] then ?u
       else backslash # CHR ''p'' # CHR ''h'' # CHR ''i'' # CHR '' '' # dropWhile is_space v)"
    by (simp add: once_def phiSpaces_def)
  have 4: "once fracSpaces (backslash # CHR ''p'' # CHR ''h'' # CHR ''i'' # w) =
      backslash # CHR ''p'' # CHR ''h'' # CHR ''i'' # w" for w
    by (simp add: once_def fracSpaces_def)
  show ?thesis
  proof (cases "takeWhile is_space v = []")
    case True
    have "patchOnce ?u = ?u"
      unfolding patchOnce_def 1 2 3 using True by (simp add: 4)
    with True show ?thesis by simp
  next
    case False
    have "patchOnce ?u = backslash # CHR ''p'' # CHR ''h'' # CHR ''i'' # CHR '' '' # dropWhile is_space v"
      unfolding patchOnce_def 1 2 3 using False by (simp add: 4)
    with False show ?thesis by simp
  qed
qed

lemma patchOnce_frac:
  "patchOnce (backslash # CHR ''f'' # CHR ''r'' # CHR ''a'' # CHR ''c'' # v) =
     (if takeWhile is_space v \<noteq> [] \<and> take 1 (dropWhile is_space v) = ''{''
      then backslash # ''frac{'' @ drop 1 (dropWhile is_space v)
      else backslash # ''frac'' @ v)"
proof -
  let ?u = "backslash # CHR ''f'' # CHR ''r'' # CHR ''a'' # CHR ''c'' # v"
  have 1: "once (literal (backslash # ''partia l'') (backslash # ''partial'')) ?u = ?u"
    by (simp add: once_def literal_def)
  have 2: "once (literal (backslash # ''delt a'') (backslash # ''delta'')) ?u = ?u"
    by (simp add: once_def literal_def)
  have 3: "once phiSpaces ?u = ?u"
    by (simp add: once_def phiSpaces_def)
  have 4: "once fracSpaces ?u =
      (if takeWhile is_space v \<noteq> [] \<and> take 1 (dropWhile is_space v) = ''{''
       then backslash # CHR ''f'' # CHR ''r'' # CHR ''a'' # CHR ''c'' # CHR ''{''
              # drop 1 (dropWhile is_space v)
       else ?u)"
    by (simp add: once_def fracSpaces_def)
  show ?thesis unfolding patchOnce_def 1 2 3 4 by simp
qed

lemma patchOnce_other:
  assumes "take 9 u \<noteq> backslash # ''partia l''" and "take 7 u \<noteq> backslash # ''delt a''"
    and "take 4 u \<noteq> backslash # ''phi''" and "take 5 u \<noteq> backslash # ''frac''"
  shows "patchOnce u = u"
proof -
  have l: "length (backslash # ''partia l'') = 9" "length (backslash # ''delt a'') = 7"
    by simp_all
  have "literal (backslash # ''partia l'') (backslash # ''partial'') u = None"
    unfolding literal_def l using assms(1) by simp
  then have 1: "once (literal (backslash # ''partia l'') (backslash # ''partial'')) u = u"
    by (simp add: once_def)
  have "literal (backslash # ''delt a'') (backslash # ''delta'') u = None"
    unfolding literal_def l using assms(2) by simp
  then have 2: "once (literal (backslash # ''delt a'') (backslash # ''delta'')) u = u"
    by (simp add: once_def)
  have 3: "once phiSpaces u = u"
    using assms(3) by (simp add: once_def phiSpaces_def)
  have 4: "once fracSpaces u = u"
    using assms(4) by (simp add: once_def fracSpaces_def)
  show ?thesis unfolding patchOnce_def 1 2 3 4 ..
qed

lemma patchOnce_idem: "patchOnce (patchOnce u) = patchOnce u"
proof -
  consider
      (partial) "take 9 u = backslash # ''partia l''"
    | (delta) "take 7 u = backslash # ''delt a''"
    | (phi) "take 4 u = backslash # ''phi''"
    | (frac) "take 5 u = backslash # ''frac''"
    | (none) "take 9 u \<noteq> backslash # ''partia l''" "take 7 u \<noteq> backslash # ''delt a''"
        "take 4 u \<noteq> backslash # ''phi''" "take 5 u \<noteq> backslash # ''frac''"
    by blast
  then show ?thesis
  proof cases
    case partial
    then have "u = (backslash # ''partia l'') @ drop 9 u"
      by (metis append_take_drop_id)
    then obtain v where u: "u = backslash # CHR ''p'' # CHR ''a'' # CHR ''r'' # CHR ''t''
        # CHR ''i'' # CHR ''a'' # CHR '' '' # CHR ''l'' # v"
      by auto
    show ?thesis unfolding u by (simp add: patchOnce_partial)
  next
    case delta
    then have "u = (backslash # ''delt a'') @ drop 7 u"
      by (metis append_take_drop_id)
    then obtain v where u: "u = backslash # CHR ''d'' # CHR ''e'' # CHR ''l'' # CHR ''t''
        # CHR '' '' # CHR ''a'' # v"
      by auto
    show ?thesis unfolding u by (simp add: patchOnce_delta)
  next
    case phi
    then have "u = (backslash # ''phi'') @ drop 4 u"
      by (metis append_take_drop_id)
    then obtain v where u: "u = backslash # CHR ''p'' # CHR ''h'' # CHR ''i'' # v"
      by auto
    show ?thesis
    proof (cases "takeWhile is_space v = []")
      case True
      have "patchOnce u = u"
        unfolding u using True by (simp add: patchOnce_phi)
      then show ?thesis by simp
    next
      case False
      have "patchOnce u = backslash # CHR ''p'' # CHR ''h'' # CHR ''i''
          # CHR '' '' # dropWhile is_space v"
        unfolding u using False by (simp add: patchOnce_phi)
      moreover have "patchOnce (backslash # CHR ''p'' # CHR ''h'' # CHR ''i''
          # CHR '' '' # dropWhile is_space v) = backslash # CHR ''p'' # CHR ''h'' # CHR ''i''
          # CHR '' '' # dropWhile is_space v"
        by (simp add: patchOnce_phi is_space_examples)
      ultimately show ?thesis by simp
    qed
  next
    case frac
    then have "u = (backslash # ''frac'') @ drop 5 u"
      by (metis append_take_drop_id)
    then obtain v where u: "u = backslash # CHR ''f'' # CHR ''r'' # CHR ''a'' # CHR ''c'' # v"
      by auto
    show ?thesis
    proof (cases "takeWhile is_space v \<noteq> [] \<and> take 1 (dropWhile is_space v) = ''{''")
      case False
      have "patchOnce u = u"
        unfolding u using False by (auto simp: patchOnce_frac)
      then show ?thesis by simp
    next
      case True
      have "patchOnce u = backslash # CHR ''f'' # CHR ''r'' # CHR ''a'' # CHR ''c''
          # CHR ''{'' # drop 1 (dropWhile is_space v)"
        unfolding u using True by (simp add: patchOnce_frac)
      moreover have "patchOnce (backslash # CHR ''f'' # CHR ''r'' # CHR ''a'' # CHR ''c''
          # CHR ''{'' # drop 1 (dropWhile is_space v)) = backslash # CHR ''f'' # CHR ''r''
          # CHR ''a'' # CHR ''c'' # CHR ''{'' # drop 1 (dropWhile is_space v)"
        by (simp add: patchOnce_frac is_space_examples)
      ultimately show ?thesis by simp
    qed
  next
    case none
    then have "patchOnce u = u" by (rule patchOnce_other)
    then show ?thesis by simp
  qed
qed

text \<open>The typo patches work segment by segment.\<close>

lemma typoPatches_plain:
  assumes "backslash \<notin> set p"
  shows "typoPatches (p @ t) = p @ typoPatches t"
  unfolding typoPatches_def
  by (simp add: replace_matches_skip [OF segmental_partial assms]
      replace_matches_skip [OF segmental_delta assms]
      replace_matches_skip [OF segmental_phiSpaces assms]
      replace_matches_skip [OF segmental_fracSpaces assms])

lemma typoPatches_startsSegment:
  assumes "startsSegment r"
  shows "startsSegment (typoPatches r)"
  unfolding typoPatches_def
  by (intro replace_matches_startsSegment segmental_partial segmental_delta
      segmental_phiSpaces segmental_fracSpaces assms)

lemma typoPatches_segment:
  assumes "backslash \<notin> set s" and "startsSegment r"
  shows "typoPatches (backslash # s @ r) = patchOnce (backslash # s) @ typoPatches r"
proof -
  let ?pa = "literal (backslash # ''partia l'') (backslash # ''partial'')"
  let ?dl = "literal (backslash # ''delt a'') (backslash # ''delta'')"
  have 1: "replace_matches ?pa (backslash # s @ r)
      = once ?pa (backslash # s) @ replace_matches ?pa r"
    by (rule replace_matches_segment [OF segmental_partial assms])
  from once_shape [OF segmental_partial assms(1)]
  obtain s1 where s1: "once ?pa (backslash # s) = backslash # s1" "backslash \<notin> set s1"
    by blast
  have r1: "startsSegment (replace_matches ?pa r)"
    by (rule replace_matches_startsSegment [OF segmental_partial assms(2)])
  have 2: "replace_matches ?dl (backslash # s1 @ replace_matches ?pa r)
      = once ?dl (backslash # s1) @ replace_matches ?dl (replace_matches ?pa r)"
    by (rule replace_matches_segment [OF segmental_delta s1(2) r1])
  from once_shape [OF segmental_delta s1(2)]
  obtain s2 where s2: "once ?dl (backslash # s1) = backslash # s2" "backslash \<notin> set s2"
    by blast
  have r2: "startsSegment (replace_matches ?dl (replace_matches ?pa r))"
    by (rule replace_matches_startsSegment [OF segmental_delta r1])
  have 3: "replace_matches phiSpaces (backslash # s2 @ replace_matches ?dl (replace_matches ?pa r))
      = once phiSpaces (backslash # s2)
        @ replace_matches phiSpaces (replace_matches ?dl (replace_matches ?pa r))"
    by (rule replace_matches_segment [OF segmental_phiSpaces s2(2) r2])
  from once_shape [OF segmental_phiSpaces s2(2)]
  obtain s3 where s3: "once phiSpaces (backslash # s2) = backslash # s3" "backslash \<notin> set s3"
    by blast
  have r3: "startsSegment (replace_matches phiSpaces (replace_matches ?dl (replace_matches ?pa r)))"
    by (rule replace_matches_startsSegment [OF segmental_phiSpaces r2])
  have 4: "replace_matches fracSpaces
        (backslash # s3 @ replace_matches phiSpaces (replace_matches ?dl (replace_matches ?pa r)))
      = once fracSpaces (backslash # s3)
        @ replace_matches fracSpaces
            (replace_matches phiSpaces (replace_matches ?dl (replace_matches ?pa r)))"
    by (rule replace_matches_segment [OF segmental_fracSpaces s3(2) r3])
  have "typoPatches (backslash # s @ r)
      = once fracSpaces (backslash # s3) @ typoPatches r"
    unfolding typoPatches_def 1 s1(1) append_Cons 2 s2(1) 3 s3(1) 4 ..
  moreover have "patchOnce (backslash # s) = once fracSpaces (backslash # s3)"
    unfolding patchOnce_def s1(1) s2(1) s3(1) ..
  ultimately show ?thesis by simp
qed

lemma patchOnce_shape:
  assumes "backslash \<notin> set s"
  shows "\<exists>s'. patchOnce (backslash # s) = backslash # s' \<and> backslash \<notin> set s'"
proof -
  let ?pa = "literal (backslash # ''partia l'') (backslash # ''partial'')"
  let ?dl = "literal (backslash # ''delt a'') (backslash # ''delta'')"
  from once_shape [OF segmental_partial assms]
  obtain s1 where s1: "once ?pa (backslash # s) = backslash # s1" "backslash \<notin> set s1"
    by blast
  from once_shape [OF segmental_delta s1(2)]
  obtain s2 where s2: "once ?dl (backslash # s1) = backslash # s2" "backslash \<notin> set s2"
    by blast
  from once_shape [OF segmental_phiSpaces s2(2)]
  obtain s3 where s3: "once phiSpaces (backslash # s2) = backslash # s3" "backslash \<notin> set s3"
    by blast
  from once_shape [OF segmental_fracSpaces s3(2)]
  obtain s4 where s4: "once fracSpaces (backslash # s3) = backslash # s4" "backslash \<notin> set s4"
    by blast
  have "patchOnce (backslash # s) = backslash # s4"
    unfolding patchOnce_def s1(1) s2(1) s3(1) s4(1) ..
  with s4(2) show ?thesis by blast
qed

lemma typoPatches_idem_segments:
  "startsSegment r \<Longrightarrow> typoPatches (typoPatches r) = typoPatches r"
proof (induction "length r" arbitrary: r rule: less_induct)
  case less
  show ?case
  proof (cases "r = []")
    case True
    then show ?thesis by (simp add: typoPatches_def)
  next
    case False
    from less.prems False obtain s r' where r: "r = backslash # s @ r'"
      and s: "backslash \<notin> set s" and r': "startsSegment r'" and len: "length r' < length r"
      by (rule split_segment)
    from patchOnce_shape [OF s] obtain s' where s': "patchOnce (backslash # s) = backslash # s'"
      and nb: "backslash \<notin> set s'"
      by blast
    have 1: "typoPatches r = backslash # s' @ typoPatches r'"
      unfolding r by (simp add: typoPatches_segment [OF s r'] s')
    have "typoPatches (backslash # s' @ typoPatches r')
        = patchOnce (backslash # s') @ typoPatches (typoPatches r')"
      by (rule typoPatches_segment [OF nb typoPatches_startsSegment [OF r']])
    also have "patchOnce (backslash # s') = backslash # s'"
      using patchOnce_idem [of "backslash # s"] by (simp add: s')
    also have "typoPatches (typoPatches r') = typoPatches r'"
      by (rule less.hyps [OF len r'])
    finally show ?thesis by (simp add: 1)
  qed
qed

lemma typoPatches_idem: "typoPatches (typoPatches t) = typoPatches t"
proof -
  obtain p r where t: "t = p @ r" and p: "backslash \<notin> set p" and r: "startsSegment r"
    by (rule split_plain)
  show ?thesis
    by (simp add: t typoPatches_plain [OF p] typoPatches_idem_segments [OF r])
qed

text \<open>
  C6, amended. The typo patches are idempotent on every string. For every string whose
  normalizer output is a fixed point of the delimiter rewrites, applying the normalizer
  twice yields the same output as applying it once; this holds in particular for a fixed
  point of the delimiter rewrites whose typo-patched text is again such a fixed point, and
  for every text without a backslash, which the normalizer returns unchanged.
\<close>

theorem normalizer_twice_when_output_fixed:
  "typoPatches (typoPatches t) = typoPatches t
   \<and> (delimiterRewrites (formatMathContent t) = formatMathContent t \<longrightarrow>
        formatMathContent (formatMathContent t) = formatMathContent t)
   \<and> (delimiterRewrites t = t \<and> delimiterRewrites (typoPatches t) = typoPatches t \<longrightarrow>
        formatMathContent t = typoPatches t
        \<and> formatMathContent (formatMathContent t) = formatMathContent t)
   \<and> (backslash \<notin> set t \<longrightarrow> formatMathContent t = t)"
proof -
  have twice: "formatMathContent (formatMathContent t) = formatMathContent t"
    if fixed: "delimiterRewrites (formatMathContent t) = formatMathContent t"
  proof (cases "t = [] \<or> formatMathContent t = []")
    case True
    then show ?thesis by (auto simp: formatMathContent_def)
  next
    case False
    then have n: "formatMathContent t = typoPatches (delimiterRewrites t)"
      by (simp add: formatMathContent_def)
    have unfold: "formatMathContent z = typoPatches (delimiterRewrites z)" if "z \<noteq> []" for z
      using that by (simp add: formatMathContent_def)
    from False have "formatMathContent t \<noteq> []" by simp
    then have "formatMathContent (formatMathContent t)
        = typoPatches (delimiterRewrites (formatMathContent t))"
      by (rule unfold)
    also have "\<dots> = typoPatches (formatMathContent t)" by (simp add: fixed)
    also have "\<dots> = formatMathContent t" by (simp add: n typoPatches_idem)
    finally show ?thesis .
  qed
  have special: "formatMathContent t = typoPatches t
      \<and> formatMathContent (formatMathContent t) = formatMathContent t"
    if "delimiterRewrites t = t" and "delimiterRewrites (typoPatches t) = typoPatches t"
  proof -
    have n: "formatMathContent t = typoPatches t"
      using that(1) by (simp add: formatMathContent_def typoPatches_def)
    with that(2) have "delimiterRewrites (formatMathContent t) = formatMathContent t" by simp
    from twice [OF this] n show ?thesis by simp
  qed
  have plain: "formatMathContent t = t" if "backslash \<notin> set t"
    using that by (simp add: formatMathContent_def no_backslash_fixed)
  from typoPatches_idem [of t] twice special plain show ?thesis by blast
qed

lemma partiaL_values:
  shows "delimiterRewrites partiaL = partiaL"
    and "typoPatches partiaL = backslash # ''partial x''"
    and "delimiterRewrites (backslash # ''partial x'') = backslash # ''partial x''"
  by (simp_all add: partiaL_def delimiterRewrites_def typoPatches_def matcher_defs)

theorem normalizer_twice_when_output_fixed_witness:
  "delimiterRewrites partiaL = partiaL
   \<and> delimiterRewrites (typoPatches partiaL) = typoPatches partiaL
   \<and> formatMathContent partiaL = backslash # ''partial x''
   \<and> formatMathContent partiaL \<noteq> partiaL
   \<and> formatMathContent (formatMathContent partiaL) = formatMathContent partiaL"
proof -
  note t = normalizer_twice_when_output_fixed [of partiaL]
  have d: "delimiterRewrites (typoPatches partiaL) = typoPatches partiaL"
    by (simp only: partiaL_values)
  from t partiaL_values(1) d
  have 1: "formatMathContent partiaL = typoPatches partiaL"
    and 2: "formatMathContent (formatMathContent partiaL) = formatMathContent partiaL"
    by blast+
  from 1 have 3: "formatMathContent partiaL = backslash # ''partial x''"
    by (simp only: partiaL_values(2))
  have 4: "formatMathContent partiaL \<noteq> partiaL"
    unfolding 3 by (simp add: partiaL_def)
  from partiaL_values(1) d 3 4 2 show ?thesis by blast
qed

end
